theory Spec2Isabelle
  imports Complex_Main "HOL-Library.Word" "HOL-Library.Signed_Division"
begin

unbundle bit_operations_syntax

section \<open>Skipper: selective audio detection and filter\<close>

text \<open>
  A shallow embedding of the parts of \<^verbatim>\<open>skipper.c\<close>, \<^verbatim>\<open>skipper.h\<close> and
  \<^verbatim>\<open>tensor-gen.c\<close> that carry the integer control flow of the program: the linear
  fades, the keep-alive splice, the results ring and the segmentation state machine, the
  frame accounting of the output ring, the trigger scan of the window analyser, and the
  tensor container with its stream adapters.

  Conventions. A C \<^verbatim>\<open>int16_t\<close> is a \<open>16 word\<close> read with \<open>sint\<close>, an
  \<^verbatim>\<open>unsigned char\<close> an \<open>8 word\<close>, a \<^verbatim>\<open>uint32_t\<close> a \<open>32 word\<close>. The
  \<^verbatim>\<open>int\<close> and \<^verbatim>\<open>int64_t\<close> counters of \<^verbatim>\<open>main\<close> are modelled as \<open>int\<close>:
  they count frames and windows of one run and stay far below \<open>2^31\<close> and \<open>2^63\<close>.
  C's \<^verbatim>\<open>/\<close> on integers truncates towards zero and is written \<open>sdiv\<close>.
\<close>

type_synonym s16 = "16 word"
type_synonym byte = "8 word"
type_synonym u32 = "32 word"

subsection \<open>Linear fades (\<^verbatim>\<open>fade_out\<close>, \<^verbatim>\<open>fade_in\<close>)\<close>

text \<open>
  \<^verbatim>\<open>*samples = (int64_t) *samples * k / total_samples\<close>: the product is formed in 64 bits
  (no overflow: \<open>|sample| \<le> 2^15\<close>, \<open>k < 2^31\<close>), divided with truncation towards zero and
  stored back into the \<^verbatim>\<open>int16_t\<close>.
\<close>

definition scale_sample :: "s16 \<Rightarrow> nat \<Rightarrow> nat \<Rightarrow> s16" where
  "scale_sample x k total_samples = word_of_int ((sint x * int k) sdiv int total_samples)"

text \<open>
  \<^verbatim>\<open>for (int total_samples = num_samples; num_samples--; samples += stride)\<close>.
  The second argument is \<^verbatim>\<open>num_samples\<close> before the test-and-decrement, the fourth the
  offset of \<^verbatim>\<open>samples\<close> from the start of the array. The body sees the decremented
  count. The callers pass arrays that hold all the samples visited.
\<close>

fun fade_out_loop :: "nat \<Rightarrow> nat \<Rightarrow> nat \<Rightarrow> nat \<Rightarrow> s16 list \<Rightarrow> s16 list" where
  "fade_out_loop total_samples 0 stride pos samples = samples"
| "fade_out_loop total_samples (Suc n) stride pos samples =
     fade_out_loop total_samples n stride (pos + stride)
       (samples[pos := scale_sample (samples ! pos) n total_samples])"

definition fade_out :: "s16 list \<Rightarrow> nat \<Rightarrow> nat \<Rightarrow> s16 list" where
  "fade_out samples num_samples stride = fade_out_loop num_samples num_samples stride 0 samples"

fun fade_in_loop :: "nat \<Rightarrow> nat \<Rightarrow> nat \<Rightarrow> nat \<Rightarrow> s16 list \<Rightarrow> s16 list" where
  "fade_in_loop total_samples 0 stride pos samples = samples"
| "fade_in_loop total_samples (Suc n) stride pos samples =
     fade_in_loop total_samples n stride (pos + stride)
       (samples[pos := scale_sample (samples ! pos) (total_samples - n) total_samples])"

definition fade_in :: "s16 list \<Rightarrow> nat \<Rightarrow> nat \<Rightarrow> s16 list" where
  "fade_in samples num_samples stride = fade_in_loop num_samples num_samples stride 0 samples"

subsection \<open>Keep-alive splice\<close>

text \<open>
  \<^verbatim>\<open>for (i = 0; i < crossfade_buff_len * 4; ++i) crossfade_ptr [i] >>= 2;\<close> where
  \<^verbatim>\<open>crossfade_ptr = output_buffer + crossfade_start * 2\<close>. The \<^verbatim>\<open>int16_t\<close> is promoted
  to \<^verbatim>\<open>int\<close>, shifted arithmetically (as every compiler the program targets does for
  signed operands) and stored back.
\<close>

definition keepalive_shift :: "s16 \<Rightarrow> s16" where
  "keepalive_shift x = signed_drop_bit 2 x"

definition keepalive_prescale :: "s16 list \<Rightarrow> nat \<Rightarrow> nat \<Rightarrow> s16 list" where
  "keepalive_prescale output_buffer crossfade_start crossfade_buff_len =
     foldl (\<lambda>buf i. buf[crossfade_start * 2 + i := keepalive_shift (buf ! (crossfade_start * 2 + i))])
       output_buffer [0 ..< crossfade_buff_len * 4]"

text \<open>\<^verbatim>\<open>crossfade_ptr [i] += crossfade_buffer [i]\<close>: the sum is stored back into 16 bits.\<close>

definition keepalive_mix :: "s16 list \<Rightarrow> s16 list \<Rightarrow> nat \<Rightarrow> nat \<Rightarrow> s16 list" where
  "keepalive_mix output_buffer crossfade_buffer crossfade_start crossfade_buff_len =
     foldl (\<lambda>buf i. buf[crossfade_start * 2 + i := buf ! (crossfade_start * 2 + i) + crossfade_buffer ! i])
       output_buffer [0 ..< crossfade_buff_len * 2]"

text \<open>
  \<^verbatim>\<open>fade_in (crossfade_ptr, crossfade_buff_len * 2, 1)\<close> works on the part of the ring
  that starts at \<^verbatim>\<open>crossfade_ptr\<close>.
\<close>

definition fade_in_at :: "s16 list \<Rightarrow> nat \<Rightarrow> nat \<Rightarrow> s16 list" where
  "fade_in_at buf off n = take off buf @ fade_in (drop off buf) n 1"

text \<open>
  The keep-alive branch on the sample arrays: the ring with the inserted crossfade, the
  frames written to stdout, and the new fade-out tail kept in the crossfade buffer.
\<close>

definition keepalive_crossfade ::
  "s16 list \<Rightarrow> s16 list \<Rightarrow> nat \<Rightarrow> nat \<Rightarrow> s16 list \<times> s16 list \<times> s16 list" where
  "keepalive_crossfade output_buffer crossfade_buffer crossfade_start crossfade_buff_len =
     (let b1 = keepalive_prescale output_buffer crossfade_start crossfade_buff_len;
          b2 = fade_in_at b1 (crossfade_start * 2) (crossfade_buff_len * 2);
          b3 = keepalive_mix b2 crossfade_buffer crossfade_start crossfade_buff_len;
          written = take (crossfade_buff_len * 2) (drop (crossfade_start * 2) b3);
          tail = take (crossfade_buff_len * 2)
                   (drop (crossfade_start * 2 + crossfade_buff_len * 2) b3)
      in (b3, written, fade_out tail (crossfade_buff_len * 2) 1))"

subsection \<open>Constants of \<^verbatim>\<open>skipper.c\<close>\<close>

abbreviation (input) SKIP_NOTHING :: int where "SKIP_NOTHING \<equiv> 0"
abbreviation (input) SKIP_TALK :: int where "SKIP_TALK \<equiv> 1"
abbreviation (input) SKIP_MUSIC :: int where "SKIP_MUSIC \<equiv> 2"
abbreviation (input) SKIP_EVERYTHING :: int where "SKIP_EVERYTHING \<equiv> 3"

abbreviation (input) MODE_NOTHING :: int where "MODE_NOTHING \<equiv> 0"
abbreviation (input) MODE_MUSIC :: int where "MODE_MUSIC \<equiv> 1"
abbreviation (input) MODE_TALK :: int where "MODE_TALK \<equiv> - 1"

abbreviation (input) WINDOW_SECONDS :: int where "WINDOW_SECONDS \<equiv> 5"
abbreviation (input) AVERAGE_SECONDS :: int where "AVERAGE_SECONDS \<equiv> 5"
abbreviation (input) STEP_MSECS :: int where "STEP_MSECS \<equiv> 200"
abbreviation (input) CROSSFADE_SECS :: int where "CROSSFADE_SECS \<equiv> 2"
abbreviation (input) MIN_TALK_SECS :: int where "MIN_TALK_SECS \<equiv> 10"
abbreviation (input) MIN_MUSIC_SECS :: int where "MIN_MUSIC_SECS \<equiv> 20"
abbreviation (input) MAX_PEND_SECS :: int where "MAX_PEND_SECS \<equiv> 60"
abbreviation (input) OUTPUT_SECONDS :: int where "OUTPUT_SECONDS \<equiv> 120"

text \<open>\<^verbatim>\<open>#define AVERAGE_COUNT (AVERAGE_SECONDS*1000/STEP_MSECS)\<close>, the length of the results ring.\<close>

definition AVERAGE_COUNT :: nat where
  "AVERAGE_COUNT = nat (AVERAGE_SECONDS * 1000 sdiv STEP_MSECS)"

abbreviation (input) MAX_CYCLES :: nat where "MAX_CYCLES \<equiv> 128"

text \<open>Every fatal path of the two programs is \<^verbatim>\<open>exit (1)\<close> after a message; the model names them.\<close>

datatype failure =
    Skipped_transition  \<comment> \<open>"error: skipped transition, buffer out of range"\<close>
  | Buffer_full         \<comment> \<open>"error: buffer full with no confirmed samples!"\<close>
  | Attack_abort        \<comment> \<open>the bare \<^verbatim>\<open>exit (1)\<close> of the attack-ratio stage\<close>

subsection \<open>Options and state of \<^verbatim>\<open>main\<close>\<close>

text \<open>
  The command-line options that steer the frame accounting. The debug overrides
  \<^verbatim>\<open>left_output\<close> and \<^verbatim>\<open>right_output\<close> only choose what is stored in the ring.
\<close>

record config =
  sample_rate :: int
  keepalive :: bool
  skip_mode :: int
  threshold :: int

definition step_samples :: "config \<Rightarrow> int" where
  "step_samples cfg = STEP_MSECS * sample_rate cfg sdiv 1000"

definition level_buff_len :: "config \<Rightarrow> int" where
  "level_buff_len cfg = WINDOW_SECONDS * sample_rate cfg"

definition output_buff_len :: "config \<Rightarrow> int" where
  "output_buff_len cfg = OUTPUT_SECONDS * sample_rate cfg"

definition crossfade_buff_len :: "config \<Rightarrow> int" where
  "crossfade_buff_len cfg = CROSSFADE_SECS * sample_rate cfg"

text \<open>
  The locals of \<^verbatim>\<open>main\<close> that decide which frames are written and which are discarded.
  The sample values held by the level buffer, the output ring and the crossfade buffer take
  no part in any branch below: the only value the loop reads back from them is the tensor
  lookup that \<^verbatim>\<open>analyze_window\<close> returns, which enters \<open>process_frame\<close> as an input.
\<close>

record state =
  level_buffer_index :: int
  output_buffer_index :: int
  num_windows :: int
  results_buffer :: "byte list"
  results_buffer_count :: nat
  music_hits :: int
  talk_hits :: int
  current_mode :: int
  music_up_counter :: int
  talk_up_counter :: int
  pend_up_counter :: int
  num_samples :: int
  transition_sample :: int
  confirmed_sample :: int
  samples_discarded :: int
  samples_written :: int

text \<open>
  The initialisers of \<^verbatim>\<open>main\<close>. \<^verbatim>\<open>results_buffer\<close> is an uninitialised array of
  \<^verbatim>\<open>AVERAGE_COUNT\<close> signed chars: its first contents are the argument.
\<close>

definition initial_state :: "byte list \<Rightarrow> state" where
  "initial_state ring =
     \<lparr> level_buffer_index = 0, output_buffer_index = 0, num_windows = 0,
       results_buffer = ring, results_buffer_count = 0,
       music_hits = 0, talk_hits = 0,
       current_mode = 0, music_up_counter = 0, talk_up_counter = 0, pend_up_counter = 0,
       num_samples = 0, transition_sample = 0, confirmed_sample = 0,
       samples_discarded = 0, samples_written = 0 \<rparr>"

subsection \<open>Results ring\<close>

text \<open>
  \<^verbatim>\<open>results_buffer [results_buffer_count++] = tensor_value;\<close> and, once the count reaches
  \<^verbatim>\<open>AVERAGE_COUNT\<close>, the sum over \<^verbatim>\<open>results_buffer_count\<close> entries followed by
  \<^verbatim>\<open>memmove (results_buffer, results_buffer + 1, AVERAGE_COUNT - 1)\<close> and the decrement.
  The result is the new value of \<^verbatim>\<open>tensor_value\<close> (the smoothed score) when the ring
  was full, with the state after the pop.
\<close>

definition results_push :: "byte \<Rightarrow> state \<Rightarrow> int option \<times> state" where
  "results_push v s =
     (let buf = (results_buffer s)[results_buffer_count s := v];
          cnt = results_buffer_count s + 1
      in if cnt = AVERAGE_COUNT
         then (Some (sum_list (map sint (take cnt buf))),
               s\<lparr> results_buffer := take (AVERAGE_COUNT - 1) (drop 1 buf) @ drop (AVERAGE_COUNT - 1) buf,
                  results_buffer_count := cnt - 1 \<rparr>)
         else (None, s\<lparr> results_buffer := buf, results_buffer_count := cnt \<rparr>))"

text \<open>The windows of a run through the results ring: the last smoothed score and the state.\<close>

definition push_all :: "byte list \<Rightarrow> state \<Rightarrow> int option \<times> state" where
  "push_all lookups s = foldl (\<lambda>(smoothed, s1) v. results_push v s1) (None, s) lookups"

subsection \<open>Segmentation state machine\<close>

definition latch_transition :: "config \<Rightarrow> state \<Rightarrow> state" where
  "latch_transition cfg s =
     s\<lparr> transition_sample :=
          num_samples s - ((WINDOW_SECONDS + AVERAGE_SECONDS) * sample_rate cfg) sdiv 2,
        pend_up_counter := 0 \<rparr>"

text \<open>
  The test \<^verbatim>\<open>tensor_value > threshold * results_buffer_count\<close> on the smoothed score,
  with the count as it is after the pop.
\<close>

definition music_tendency :: "config \<Rightarrow> int \<Rightarrow> state \<Rightarrow> bool" where
  "music_tendency cfg tensor_value s \<longleftrightarrow>
     tensor_value > threshold cfg * int (results_buffer_count s)"

text \<open>
  The block \<^verbatim>\<open>if (tensor_value > threshold * results_buffer_count) { ... } else { ... }\<close>.
  The first argument after the options is the smoothed score; the result is
  \<^verbatim>\<open>detected_mode\<close> with the updated counters.
\<close>

definition state_machine :: "config \<Rightarrow> int \<Rightarrow> state \<Rightarrow> int \<times> state" where
  "state_machine cfg tensor_value s =
     (if music_tendency cfg tensor_value s then
        (if current_mode s = MODE_MUSIC then
           (if talk_up_counter s \<noteq> 0 then
              (let s1 = s\<lparr>talk_up_counter := talk_up_counter s - 1\<rparr>
               in if talk_up_counter s1 \<noteq> 0 then
                    (let s2 = s1\<lparr>pend_up_counter := pend_up_counter s1 + 1\<rparr>
                     in if pend_up_counter s2 \<ge> MAX_PEND_SECS * 1000 sdiv STEP_MSECS
                        then (MODE_NOTHING, s2\<lparr>talk_up_counter := 0\<rparr>)
                        else (MODE_NOTHING, s2))
                  else (MODE_NOTHING, s1))
            else (MODE_NOTHING, s))
         else
           (let s1 = (if music_up_counter s = 0 then latch_transition cfg s else s);
                s2 = s1\<lparr>music_up_counter := music_up_counter s1 + 1\<rparr>
            in if music_up_counter s2 = MIN_MUSIC_SECS * 1000 sdiv STEP_MSECS
               then (MODE_MUSIC, s2\<lparr>music_up_counter := 0, pend_up_counter := pend_up_counter s2 + 1\<rparr>)
               else (MODE_NOTHING, s2\<lparr>pend_up_counter := pend_up_counter s2 + 1\<rparr>)))
      else
        (if current_mode s = MODE_TALK then
           (if music_up_counter s \<noteq> 0 then
              (let s1 = s\<lparr>music_up_counter := music_up_counter s - 1\<rparr>
               in if music_up_counter s1 \<noteq> 0 then
                    (let s2 = s1\<lparr>pend_up_counter := pend_up_counter s1 + 1\<rparr>
                     in if pend_up_counter s2 \<ge> MAX_PEND_SECS * 1000 sdiv STEP_MSECS
                        then (MODE_NOTHING, s2\<lparr>music_up_counter := 0\<rparr>)
                        else (MODE_NOTHING, s2))
                  else (MODE_NOTHING, s1))
            else (MODE_NOTHING, s))
         else
           (let s1 = (if talk_up_counter s = 0 then latch_transition cfg s else s);
                s2 = s1\<lparr>talk_up_counter := talk_up_counter s1 + 1\<rparr>
            in if talk_up_counter s2 = MIN_TALK_SECS * 1000 sdiv STEP_MSECS
               then (MODE_TALK, s2\<lparr>talk_up_counter := 0, pend_up_counter := pend_up_counter s2 + 1\<rparr>)
               else (MODE_NOTHING, s2\<lparr>pend_up_counter := pend_up_counter s2 + 1\<rparr>))))"

text \<open>
  A run of windows through the state machine alone: each window brings the value of
  \<^verbatim>\<open>num_samples\<close> at which it completes and its smoothed score; a detection is recorded
  and becomes the current mode (\<^verbatim>\<open>current_mode = detected_mode\<close>). The result lists
  \<^verbatim>\<open>detected_mode\<close> window by window.
\<close>

fun detections :: "config \<Rightarrow> (int \<times> int) list \<Rightarrow> state \<Rightarrow> int list \<times> state" where
  "detections cfg [] s = ([], s)"
| "detections cfg ((n, tensor_value) # ws) s =
     (let (detected_mode, s1) = state_machine cfg tensor_value (s\<lparr>num_samples := n\<rparr>);
          s2 = (if detected_mode \<noteq> MODE_NOTHING then s1\<lparr>current_mode := detected_mode\<rparr> else s1);
          (ds, s3) = detections cfg ws s2
      in (detected_mode # ds, s3))"

subsection \<open>Splicing at a confirmed transition\<close>

text \<open>
  The block \<^verbatim>\<open>if (detected_mode) { ... current_mode = detected_mode; }\<close>: the frames before
  the crossfade are written (entering a skip) or discarded (leaving one) and the ring slides
  left by \<^verbatim>\<open>crossfade_start\<close>.
\<close>

definition transition :: "config \<Rightarrow> int \<Rightarrow> state \<Rightarrow> failure + state" where
  "transition cfg detected_mode s =
     (if detected_mode \<noteq> MODE_NOTHING then
        (if skip_mode cfg = SKIP_MUSIC \<or> skip_mode cfg = SKIP_TALK then
           (let audio_offset = transition_sample s - num_samples s + output_buffer_index s;
                crossfade_start = audio_offset - crossfade_buff_len cfg sdiv 2
            in if skip_mode cfg = (if detected_mode = MODE_MUSIC then SKIP_MUSIC else SKIP_TALK) then
                 (if crossfade_start \<ge> 0
                  then Inr (s\<lparr> samples_written := samples_written s + crossfade_start,
                              output_buffer_index := output_buffer_index s - crossfade_start,
                              current_mode := detected_mode \<rparr>)
                  else Inl Skipped_transition)
               else
                 (if crossfade_start \<ge> 0
                  then Inr (s\<lparr> output_buffer_index := output_buffer_index s - crossfade_start,
                              samples_discarded := samples_discarded s + crossfade_start,
                              current_mode := detected_mode \<rparr>)
                  else Inl Skipped_transition))
         else Inr (s\<lparr>current_mode := detected_mode\<rparr>))
      else Inr s)"

definition confirm :: "config \<Rightarrow> state \<Rightarrow> state" where
  "confirm cfg s =
     (if talk_up_counter s = 0 \<and> music_up_counter s = 0
      then s\<lparr> confirmed_sample :=
                 num_samples s - ((WINDOW_SECONDS + AVERAGE_SECONDS) * sample_rate cfg
                                    + step_samples cfg + crossfade_buff_len cfg) sdiv 2 \<rparr>
      else s)"

text \<open>
  The body of \<^verbatim>\<open>if (level_buffer_index == level_buff_len)\<close>; the second argument is the
  signed char that \<^verbatim>\<open>analyze_window\<close> returns for this window.
\<close>

definition process_window :: "config \<Rightarrow> byte \<Rightarrow> state \<Rightarrow> failure + state" where
  "process_window cfg lookup s =
     (let tensor_value = sint lookup;
          s1 = (if tensor_value > threshold cfg then s\<lparr>music_hits := music_hits s + 1\<rparr>
                else if tensor_value < threshold cfg then s\<lparr>talk_hits := talk_hits s + 1\<rparr>
                else s);
          (smoothed, s2) = results_push lookup s1;
          r = (case smoothed of
                 None \<Rightarrow> Inr s2
               | Some tensor_value \<Rightarrow>
                   (let (detected_mode, s3) = state_machine cfg tensor_value s2
                    in case transition cfg detected_mode s3 of
                         Inl e \<Rightarrow> Inl e
                       | Inr s4 \<Rightarrow> Inr (confirm cfg s4)))
      in case r of
           Inl e \<Rightarrow> Inl e
         | Inr s5 \<Rightarrow> Inr (s5\<lparr> level_buffer_index := level_buffer_index s5 - step_samples cfg,
                              num_windows := num_windows s5 + 1 \<rparr>))"

subsection \<open>Flushing the output ring\<close>

definition flush :: "config \<Rightarrow> state \<Rightarrow> failure + state" where
  "flush cfg s =
     (let available_samples =
            confirmed_sample s - num_samples s + output_buffer_index s + step_samples cfg sdiv 2
      in if output_buffer_index s = output_buff_len cfg \<or> available_samples \<ge> sample_rate cfg * 60 then
           (if keepalive cfg \<and> available_samples > crossfade_buff_len cfg * 2 \<and>
               skip_mode cfg = (if current_mode s = MODE_MUSIC then SKIP_MUSIC else SKIP_TALK) then
              Inr (s\<lparr> samples_discarded := samples_discarded s + (available_samples - crossfade_buff_len cfg),
                     samples_written := samples_written s + crossfade_buff_len cfg,
                     output_buffer_index := output_buffer_index s - available_samples \<rparr>)
            else if available_samples > 0 then
              (let write_data = (skip_mode cfg = SKIP_NOTHING \<or>
                      skip_mode cfg = (if current_mode s = MODE_MUSIC then SKIP_TALK else SKIP_MUSIC));
                   s1 = (if write_data then s\<lparr>samples_written := samples_written s + available_samples\<rparr>
                         else s\<lparr>samples_discarded := samples_discarded s + available_samples\<rparr>)
               in Inr (s1\<lparr>output_buffer_index := output_buffer_index s1 - available_samples\<rparr>))
            else Inl Buffer_full)
         else Inr s)"

subsection \<open>The frame loop and the final drain\<close>

text \<open>
  One pass of \<^verbatim>\<open>for (int j = 0; j < input_samples; j++)\<close>. \<open>analysis n\<close> is the lookup
  that \<^verbatim>\<open>analyze_window (level_buffer, n, ...)\<close> returns for the window that ends at input
  frame \<open>n\<close>.
\<close>

definition process_frame :: "config \<Rightarrow> (int \<Rightarrow> byte) \<Rightarrow> state \<Rightarrow> failure + state" where
  "process_frame cfg analysis s =
     (let s1 = s\<lparr> level_buffer_index := level_buffer_index s + 1,
                  output_buffer_index := output_buffer_index s + 1,
                  num_samples := num_samples s + 1 \<rparr>
      in case (if level_buffer_index s1 = level_buff_len cfg
               then process_window cfg (analysis (num_samples s1)) s1 else Inr s1) of
           Inl e \<Rightarrow> Inl e
         | Inr s2 \<Rightarrow> flush cfg s2)"

text \<open>The frames of all blocks that \<^verbatim>\<open>fread\<close> delivers, one after the other.\<close>

fun run_frames :: "config \<Rightarrow> (int \<Rightarrow> byte) \<Rightarrow> nat \<Rightarrow> state \<Rightarrow> failure + state" where
  "run_frames cfg analysis 0 s = Inr s"
| "run_frames cfg analysis (Suc n) s =
     (case process_frame cfg analysis s of
        Inl e \<Rightarrow> Inl e
      | Inr s' \<Rightarrow> run_frames cfg analysis n s')"

text \<open>\<^verbatim>\<open>if (output_buffer_index) { ... }\<close> after the read loop. The index itself is left as it is.\<close>

definition final_drain :: "config \<Rightarrow> state \<Rightarrow> state" where
  "final_drain cfg s =
     (if output_buffer_index s \<noteq> 0 then
        (let write_data = (skip_mode cfg = SKIP_NOTHING \<or>
                skip_mode cfg = (if current_mode s = MODE_MUSIC then SKIP_TALK else SKIP_MUSIC))
         in if write_data then s\<lparr>samples_written := samples_written s + output_buffer_index s\<rparr>
            else s\<lparr>samples_discarded := samples_discarded s + output_buffer_index s\<rparr>)
      else s)"

subsection \<open>Window analyser: trigger scan\<close>

text \<open>
  \<^verbatim>\<open>analyze_window\<close> works on \<^verbatim>\<open>float\<close> levels and \<^verbatim>\<open>double\<close> thresholds. The
  scan below is written over an arbitrary carrier \<open>'a\<close> (the doubles, which hold every
  float) with the operations the C code applies to them, so that what is proved of it holds
  for IEEE arithmetic as for any other: nothing is assumed of the six operations.
  \<open>fless\<close> is \<^verbatim>\<open><\<close> (and \<^verbatim>\<open>>\<close> with the operands exchanged), \<open>fdivf\<close> the
  division of two floats in \<^verbatim>\<open>peak / trough\<close>, \<open>fdiv\<close> and \<open>fmul\<close> the division and
  product of a float and a double, \<open>fsqrt\<close> and \<open>fcbrt\<close> the library's \<^verbatim>\<open>sqrt\<close> and
  \<^verbatim>\<open>cbrt\<close>.
\<close>

record 'a float_ops =
  fless :: "'a \<Rightarrow> 'a \<Rightarrow> bool"
  fdivf :: "'a \<Rightarrow> 'a \<Rightarrow> 'a"
  fdiv :: "'a \<Rightarrow> 'a \<Rightarrow> 'a"
  fmul :: "'a \<Rightarrow> 'a \<Rightarrow> 'a"
  fsqrt :: "'a \<Rightarrow> 'a"
  fcbrt :: "'a \<Rightarrow> 'a"

text \<open>The locals of \<^verbatim>\<open>analyze_window\<close> that the second loop updates.\<close>

record 'a scan =
  prev_peak :: 'a
  prev_trough :: 'a
  prev_peak_pos :: int
  prev_trough_pos :: int
  zones :: "int list"
  cycles :: nat
  trigger_points :: "int list"

text \<open>
  \<^verbatim>\<open>for (i = 1; i < num_samples; ++i) { if (levels [i] < trough) ...; if (levels [i] > peak) ... }\<close>,
  returning \<open>(trough, peak)\<close>.
\<close>

definition trough_and_peak :: "'a float_ops \<Rightarrow> 'a \<Rightarrow> 'a list \<Rightarrow> 'a \<times> 'a" where
  "trough_and_peak ops l0 ls =
     foldl (\<lambda>(trough, peak) l.
              (if fless ops l trough then l else trough, if fless ops peak l then l else peak))
       (l0, l0) ls"

text \<open>
  \<^verbatim>\<open>trigger_points [cycles++] = pos\<close>. The array has \<^verbatim>\<open>MAX_CYCLES\<close> entries; a store at
  an index beyond them is undefined behaviour in C and \<open>None\<close> here.
\<close>

definition store_trigger :: "int \<Rightarrow> 'a scan \<Rightarrow> 'a scan option" where
  "store_trigger pos st =
     (if cycles st < MAX_CYCLES \<and> cycles st < length (trigger_points st)
      then Some (st\<lparr> trigger_points := (trigger_points st)[cycles st := pos],
                     cycles := cycles st + 1 \<rparr>)
      else None)"

text \<open>One pass of the second loop, for index \<open>i\<close> and \<open>level = levels [i]\<close>.\<close>

definition scan_step ::
  "'a float_ops \<Rightarrow> 'a \<Rightarrow> 'a \<Rightarrow> 'a \<Rightarrow> 'a \<Rightarrow> int \<Rightarrow> 'a \<Rightarrow> 'a scan \<Rightarrow> 'a scan option" where
  "scan_step ops peak trough square_root cube_root i level st =
     (let zone = (if fless ops (fdiv ops peak cube_root) level then 2
                  else if fless ops (fmul ops trough cube_root) level then 1
                  else (0::nat));
          st1 = st\<lparr>zones := (zones st)[zone := zones st ! zone + 1]\<rparr>
      in if odd (cycles st1) then
           (if fless ops (prev_peak st1) level
            then Some (st1\<lparr>prev_peak := level, prev_peak_pos := i\<rparr>)
            else if fless ops level (fdiv ops (prev_peak st1) square_root) then
              (case store_trigger (prev_peak_pos st1) st1 of
                 None \<Rightarrow> None
               | Some st2 \<Rightarrow>
                   (let st3 = st2\<lparr>prev_trough := level\<rparr>
                    in Some (if cycles st3 = MAX_CYCLES then st3\<lparr>cycles := cycles st3 - 2\<rparr> else st3)))
            else Some st1)
         else
           (if fless ops level (prev_trough st1)
            then Some (st1\<lparr>prev_trough := level, prev_trough_pos := i\<rparr>)
            else if fless ops (fmul ops (prev_trough st1) square_root) level then
              (case store_trigger (prev_trough_pos st1) st1 of
                 None \<Rightarrow> None
               | Some st2 \<Rightarrow> Some (st2\<lparr>prev_peak := level\<rparr>))
            else Some st1))"

fun scan_loop ::
  "'a float_ops \<Rightarrow> 'a \<Rightarrow> 'a \<Rightarrow> 'a \<Rightarrow> 'a \<Rightarrow> int \<Rightarrow> 'a list \<Rightarrow> 'a scan \<Rightarrow> 'a scan option" where
  "scan_loop ops peak trough square_root cube_root i [] st = Some st"
| "scan_loop ops peak trough square_root cube_root i (level # levels) st =
     (case scan_step ops peak trough square_root cube_root i level st of
        None \<Rightarrow> None
      | Some st' \<Rightarrow> scan_loop ops peak trough square_root cube_root (i + 1) levels st')"

text \<open>
  The first part of \<^verbatim>\<open>analyze_window\<close>, up to the end of the second loop.
  \<^verbatim>\<open>trigger_points\<close> is an uninitialised array of \<^verbatim>\<open>MAX_CYCLES\<close> ints: its first
  contents are the argument \<open>triggers\<close>. The window holds \<^verbatim>\<open>5 * sample_rate\<close> levels
  and is never empty.
\<close>

definition trigger_scan :: "'a float_ops \<Rightarrow> int list \<Rightarrow> 'a list \<Rightarrow> 'a scan option" where
  "trigger_scan ops triggers levels =
     (case levels of
        [] \<Rightarrow> None
      | l0 # ls \<Rightarrow>
          (let (trough, peak) = trough_and_peak ops l0 ls;
               square_root = fsqrt ops (fdivf ops peak trough);
               cube_root = fcbrt ops (fdivf ops peak trough)
           in scan_loop ops peak trough square_root cube_root 1 ls
                \<lparr> prev_peak = l0, prev_trough = l0, prev_peak_pos = 0, prev_trough_pos = 0,
                  zones = [0, 0, 0, 0], cycles = 0, trigger_points = triggers \<rparr>))"

subsection \<open>Window analyser: attack and decay intervals\<close>

text \<open>
  \<^verbatim>\<open>for (i = 2; i < cycles; ++i) if (i & 1) { attack ... } else { decay ... }\<close>, returning
  \<open>(attack_count, attack_time, decay_count, decay_time)\<close>.
\<close>

definition attack_intervals :: "int list \<Rightarrow> nat \<Rightarrow> int \<times> int \<times> int \<times> int" where
  "attack_intervals triggers n_cycles =
     foldl (\<lambda>(attack_count, attack_time, decay_count, decay_time) i.
              if odd i
              then (attack_count + 1, attack_time + (triggers ! i - triggers ! (i - 1)),
                    decay_count, decay_time)
              else (attack_count, attack_time,
                    decay_count + 1, decay_time + (triggers ! i - triggers ! (i - 1))))
       (0, 0, 0, 0) [2 ..< n_cycles]"

text \<open>
  The block \<^verbatim>\<open>if (cycles >= 4) { ... if (attack_count && decay_count) ... else exit (1); }\<close>.
  The result carries the four sums from which the ratio is formed, or nothing when the
  default ratio is kept.
\<close>

definition attack_stage :: "int list \<Rightarrow> nat \<Rightarrow> failure + (int \<times> int \<times> int \<times> int) option" where
  "attack_stage triggers n_cycles =
     (if n_cycles \<ge> 4 then
        (case attack_intervals triggers n_cycles of
           (attack_count, attack_time, decay_count, decay_time) \<Rightarrow>
             if attack_count \<noteq> 0 \<and> decay_count \<noteq> 0
             then Inr (Some (attack_count, attack_time, decay_count, decay_time))
             else Inl Attack_abort)
      else Inr None)"

subsection \<open>Window analyser: the result record\<close>

text \<open>\<^verbatim>\<open>struct analysis_result\<close> of \<^verbatim>\<open>skipper.h\<close>: eight unsigned chars.\<close>

record analysis_result =
  range_dB :: byte
  result_cycles :: byte
  low_third :: byte
  mid_third :: byte
  high_third :: byte
  attack_ratio :: byte
  peak_jitter :: byte
  spare :: byte

text \<open>
  The assignments of \<^verbatim>\<open>analyze_window\<close> to its local \<^verbatim>\<open>struct analysis_result result\<close>,
  which is declared without an initialiser: \<open>result\<close> is what the struct holds on entry.
  The integers are the values of \<^verbatim>\<open>(int) floor (...)\<close> and of \<^verbatim>\<open>cycles\<close>, converted
  to \<^verbatim>\<open>unsigned char\<close> by the assignment.
\<close>

definition store_result ::
  "analysis_result \<Rightarrow> int \<Rightarrow> int \<Rightarrow> int \<Rightarrow> int \<Rightarrow> int \<Rightarrow> int \<Rightarrow> nat \<Rightarrow> analysis_result" where
  "store_result result range_i low mid high attack jitter cycles_found =
     result\<lparr> range_dB := word_of_int range_i,
             low_third := word_of_int low,
             mid_third := word_of_int mid,
             high_third := word_of_int high,
             attack_ratio := word_of_int attack,
             peak_jitter := word_of_int jitter,
             result_cycles := of_nat cycles_found \<rparr>"

text \<open>\<^verbatim>\<open>fwrite (&result, sizeof (result), 1, analysis_output_file)\<close>: the eight bytes in order.\<close>

definition dump_result :: "analysis_result \<Rightarrow> byte list" where
  "dump_result r =
     [range_dB r, result_cycles r, low_third r, mid_third r, high_third r,
      attack_ratio r, peak_jitter r, spare r]"

subsection \<open>Stream adapters (\<^verbatim>\<open>streamer\<close>, \<^verbatim>\<open>read_buff\<close>, \<^verbatim>\<open>write_buff\<close>)\<close>

text \<open>
  \<^verbatim>\<open>typedef struct { unsigned int size, index, wrapped; unsigned char *buffer; } streamer;\<close>
  The field \<^verbatim>\<open>size\<close> is called \<open>size_s\<close> here. The counters are natural numbers:
  \<^verbatim>\<open>index\<close> never passes \<^verbatim>\<open>size\<close>.
\<close>

record streamer =
  size_s :: nat
  index :: nat
  wrapped :: nat
  buffer :: "byte list"

text \<open>\<open>None\<close> is \<^verbatim>\<open>EOF\<close>.\<close>

definition read_buff :: "streamer \<Rightarrow> byte option \<times> streamer" where
  "read_buff stream =
     (if index stream = size_s stream then (None, stream)
      else (Some (buffer stream ! index stream), stream\<lparr>index := index stream + 1\<rparr>))"

definition write_buff :: "byte \<Rightarrow> streamer \<Rightarrow> streamer" where
  "write_buff v stream =
     (let s1 = (if index stream = size_s stream
                then stream\<lparr>index := 0, wrapped := wrapped stream + 1\<rparr> else stream)
      in s1\<lparr>buffer := (buffer s1)[index s1 := v], index := index s1 + 1\<rparr>)"

text \<open>Up to \<open>k\<close> calls of \<^verbatim>\<open>read_buff\<close>, stopping at \<^verbatim>\<open>EOF\<close>: the bytes read and the stream.\<close>

fun read_bytes :: "nat \<Rightarrow> streamer \<Rightarrow> byte list \<times> streamer" where
  "read_bytes 0 stream = ([], stream)"
| "read_bytes (Suc k) stream =
     (case read_buff stream of
        (None, s1) \<Rightarrow> ([], s1)
      | (Some b, s1) \<Rightarrow> (let (bs, s2) = read_bytes k s1 in (b # bs, s2)))"

subsection \<open>The LZW codec as a parameter\<close>

text \<open>
  \<^verbatim>\<open>lzwlib.h\<close> declares \<^verbatim>\<open>lzw_compress\<close> and \<^verbatim>\<open>lzw_decompress\<close>; their bodies are
  not part of these sources. Both reach their data only through the two callbacks, so a call
  is determined by the bytes its source delivers (and \<^verbatim>\<open>maxbits\<close>): it answers with
  its return value, the number of bytes it has taken from the source, and the bytes it hands
  to the sink, in order.
\<close>

record lzw_codec =
  lzw_compress :: "nat \<Rightarrow> byte list \<Rightarrow> int \<times> nat \<times> byte list"
  lzw_decompress :: "byte list \<Rightarrow> int \<times> nat \<times> byte list"

text \<open>
  A codec call \<^verbatim>\<open>f (write_buff, &writer, read_buff, &reader)\<close> on two streamers: the
  return value, the reader and the writer afterwards.
\<close>

definition stream_call ::
  "(byte list \<Rightarrow> int \<times> nat \<times> byte list) \<Rightarrow> streamer \<Rightarrow> streamer \<Rightarrow> int \<times> streamer \<times> streamer" where
  "stream_call f reader writer =
     (case f (fst (read_bytes (size_s reader - index reader) reader)) of
        (rc, consumed, out) \<Rightarrow>
          (rc, snd (read_bytes consumed reader), foldl (\<lambda>w b. write_buff b w) writer out))"

subsection \<open>Tensor container\<close>

text \<open>\<^verbatim>\<open>sizeof (tensor_array)\<close> with \<^verbatim>\<open>ARRAY_BINS_1 .. ARRAY_BINS_4\<close> = 48, 24, 16, 16.\<close>

abbreviation (input) ARRAY_BINS_1 :: nat where "ARRAY_BINS_1 \<equiv> 48"
abbreviation (input) ARRAY_BINS_2 :: nat where "ARRAY_BINS_2 \<equiv> 24"
abbreviation (input) ARRAY_BINS_3 :: nat where "ARRAY_BINS_3 \<equiv> 16"
abbreviation (input) ARRAY_BINS_4 :: nat where "ARRAY_BINS_4 \<equiv> 16"
abbreviation (input) TENSOR_VERSION :: u32 where "TENSOR_VERSION \<equiv> 1"

definition sizeof_tensor :: nat where
  "sizeof_tensor = ARRAY_BINS_1 * ARRAY_BINS_2 * ARRAY_BINS_3 * ARRAY_BINS_4"

definition tensor_dimensions :: "byte list" where
  "tensor_dimensions = [of_nat ARRAY_BINS_1, of_nat ARRAY_BINS_2, of_nat ARRAY_BINS_3, of_nat ARRAY_BINS_4]"

text \<open>
  \<^verbatim>\<open>struct tensor_header { uint32_t version, checksum; unsigned char dimensions [4]; }\<close>,
  twelve bytes without padding, copied to and from the file as they lie in memory; the
  integers are little-endian, as the format has them.
\<close>

record tensor_header =
  version :: u32
  checksum :: u32
  dimensions :: "byte list"

definition le32 :: "u32 \<Rightarrow> byte list" where
  "le32 w = [ucast w, ucast (drop_bit 8 w), ucast (drop_bit 16 w), ucast (drop_bit 24 w)]"

definition from_le32 :: "byte list \<Rightarrow> u32" where
  "from_le32 bs =
     ucast (bs ! 0) OR push_bit 8 (ucast (bs ! 1)) OR push_bit 16 (ucast (bs ! 2))
       OR push_bit 24 (ucast (bs ! 3))"

definition header_bytes :: "tensor_header \<Rightarrow> byte list" where
  "header_bytes h = le32 (version h) @ le32 (checksum h) @ take 4 (dimensions h)"

definition bytes_header :: "byte list \<Rightarrow> tensor_header" where
  "bytes_header bs =
     \<lparr> version = from_le32 (take 4 bs), checksum = from_le32 (take 4 (drop 4 bs)),
       dimensions = take 4 (drop 8 bs) \<rparr>"

definition sizeof_header :: nat where
  "sizeof_header = 12"

text \<open>
  The tensor as the \<^verbatim>\<open>sizeof (tensor_array)\<close> bytes it occupies, row-major.
  \<^verbatim>\<open>header.checksum += ((unsigned char *) tensor) [i]\<close> in 32 bits.
\<close>

definition add_checksum :: "u32 \<Rightarrow> byte list \<Rightarrow> u32" where
  "add_checksum c tensor = foldl (\<lambda>c b. c + ucast b) c tensor"

definition sub_checksum :: "u32 \<Rightarrow> byte list \<Rightarrow> u32" where
  "sub_checksum c tensor = foldl (\<lambda>c b. c - ucast b) c tensor"

subsection \<open>Writing a tensor file (\<^verbatim>\<open>write_tensor_file\<close> of \<^verbatim>\<open>tensor-gen.c\<close>)\<close>

datatype write_failure =
    Lzw_failed          \<comment> \<open>\<^verbatim>\<open>lzw_compress\<close> returned non-zero: the function returns early\<close>
  | Maxbits_unset       \<comment> \<open>\<^verbatim>\<open>best_maxbits\<close> read without having been assigned\<close>

text \<open>
  \<^verbatim>\<open>writer.index = reader.index = 0;\<close> followed by the call of \<^verbatim>\<open>lzw_compress\<close>.
\<close>

definition compress_trial :: "lzw_codec \<Rightarrow> nat \<Rightarrow> streamer \<Rightarrow> streamer \<Rightarrow> int \<times> streamer \<times> streamer" where
  "compress_trial codec maxbits reader writer =
     stream_call (lzw_compress codec maxbits) (reader\<lparr>index := 0\<rparr>) (writer\<lparr>index := 0\<rparr>)"

text \<open>
  \<^verbatim>\<open>for (int maxbits = 9; maxbits <= 16; ++maxbits)\<close> over the list of values still to
  try. The state is the two streamers, \<^verbatim>\<open>best_maxbits\<close> (declared without an initialiser,
  \<open>None\<close> until assigned) and \<^verbatim>\<open>smallest_output\<close>.
\<close>

fun trials ::
  "lzw_codec \<Rightarrow> nat list \<Rightarrow> streamer \<times> streamer \<times> nat option \<times> nat
     \<Rightarrow> write_failure + streamer \<times> streamer \<times> nat option \<times> nat" where
  "trials codec [] st = Inr st"
| "trials codec (maxbits # rest) (reader, writer, best_maxbits, smallest_output) =
     (case compress_trial codec maxbits reader writer of
        (rc, reader', writer') \<Rightarrow>
          if rc \<noteq> 0 then Inl Lzw_failed
          else if index writer' < smallest_output
          then trials codec rest (reader', writer', Some maxbits, index writer')
          else trials codec rest (reader', writer', best_maxbits, smallest_output))"

text \<open>
  The streamers that \<^verbatim>\<open>write_tensor_file\<close> sets up. The writer's buffer comes from
  \<^verbatim>\<open>malloc\<close>: its first contents are the argument \<open>scratch\<close>.
\<close>

definition tensor_reader :: "byte list \<Rightarrow> streamer" where
  "tensor_reader tensor = \<lparr> size_s = sizeof_tensor, index = 0, wrapped = 0, buffer = tensor \<rparr>"

definition scratch_writer :: "byte list \<Rightarrow> streamer" where
  "scratch_writer scratch = \<lparr> size_s = sizeof_tensor, index = 0, wrapped = 0, buffer = scratch \<rparr>"

text \<open>The loop over \<^verbatim>\<open>maxbits\<close> alone: \<open>(best_maxbits, smallest_output)\<close> after it.\<close>

definition select_maxbits :: "lzw_codec \<Rightarrow> byte list \<Rightarrow> byte list \<Rightarrow> write_failure + nat option \<times> nat" where
  "select_maxbits codec scratch tensor =
     (case trials codec [9 ..< 17] (tensor_reader tensor, scratch_writer scratch, None, sizeof_tensor + 1) of
        Inl e \<Rightarrow> Inl e
      | Inr (reader, writer, best_maxbits, smallest_output) \<Rightarrow> Inr (best_maxbits, smallest_output))"

text \<open>
  The bytes of the file that \<^verbatim>\<open>write_tensor_file\<close> writes: the header, then
  \<^verbatim>\<open>writer.index\<close> bytes of the scratch buffer after the run with \<^verbatim>\<open>best_maxbits\<close>.
\<close>

definition write_tensor_file :: "lzw_codec \<Rightarrow> byte list \<Rightarrow> byte list \<Rightarrow> write_failure + byte list" where
  "write_tensor_file codec scratch tensor =
     (let header = \<lparr> version = TENSOR_VERSION, checksum = add_checksum 0 tensor,
                     dimensions = tensor_dimensions \<rparr>
      in case trials codec [9 ..< 17]
                (tensor_reader tensor, scratch_writer scratch, None, sizeof_tensor + 1) of
           Inl e \<Rightarrow> Inl e
         | Inr (reader, writer, best_maxbits, smallest_output) \<Rightarrow>
             (case best_maxbits of
                None \<Rightarrow> Inl Maxbits_unset
              | Some maxbits \<Rightarrow>
                  (case compress_trial codec maxbits reader writer of
                     (rc, reader', writer') \<Rightarrow>
                       if rc \<noteq> 0 then Inl Lzw_failed
                       else Inr (header_bytes header @ take (index writer') (buffer writer')))))"

subsection \<open>Loading a tensor file (\<^verbatim>\<open>local_tensor_file\<close> of \<^verbatim>\<open>skipper.c\<close>)\<close>

text \<open>
  The result is the return value (1 for success, 0 after an error message) and the contents
  of the caller's \<^verbatim>\<open>tensor\<close>, into which the decompressor writes.
\<close>

definition local_tensor_file :: "lzw_codec \<Rightarrow> byte list \<Rightarrow> byte list \<Rightarrow> int \<times> byte list" where
  "local_tensor_file codec tensor compressed_tensor =
     (if length compressed_tensor < sizeof_header then (0, tensor)
      else
        (let header = bytes_header (take sizeof_header compressed_tensor);
             payload = drop sizeof_header compressed_tensor
         in if dimensions header \<noteq> tensor_dimensions \<or> version header \<noteq> TENSOR_VERSION
            then (0, tensor)
            else
              (let reader = \<lparr> size_s = length payload, index = 0, wrapped = 0, buffer = payload \<rparr>;
                   writer = \<lparr> size_s = sizeof_tensor, index = 0, wrapped = 0, buffer = tensor \<rparr>
               in case stream_call (lzw_decompress codec) reader writer of
                    (rc, reader', writer') \<Rightarrow>
                      if rc \<noteq> 0 then (0, buffer writer')
                      else if index reader' \<noteq> size_s reader' \<or> index writer' \<noteq> size_s writer'
                              \<or> wrapped reader' \<noteq> 0 \<or> wrapped writer' \<noteq> 0
                      then (0, buffer writer')
                      else if sub_checksum (checksum header) (buffer writer') \<noteq> 0
                      then (0, buffer writer')
                      else (1, buffer writer'))))"

text \<open>
  The assumption on the codec pair, for the data at hand: at every \<^verbatim>\<open>maxbits\<close> the
  program tries, compression succeeds, and decompression of its output succeeds, takes all
  of it and gives the data back.
\<close>

definition lzw_inverts :: "lzw_codec \<Rightarrow> byte list \<Rightarrow> bool" where
  "lzw_inverts codec data \<longleftrightarrow>
     (\<forall>maxbits \<in> {9 ..< 17}.
        case lzw_compress codec maxbits data of
          (rc, consumed, out) \<Rightarrow> rc = 0 \<and> lzw_decompress codec out = (0, length out, data))"

text \<open>No trial overruns the scratch buffer of \<^verbatim>\<open>sizeof (tensor_array)\<close> bytes.\<close>

definition trials_fit :: "lzw_codec \<Rightarrow> byte list \<Rightarrow> bool" where
  "trials_fit codec data \<longleftrightarrow>
     (\<forall>maxbits \<in> {9 ..< 17}. length (snd (snd (lzw_compress codec maxbits data))) \<le> sizeof_tensor)"

text \<open>
  Codecs for concrete runs. All three share one decompressor with two block kinds: marker 0
  is followed by the data as they are, marker 1 by a 32-bit length and the one byte that is
  repeated. \<open>stored_codec\<close> always writes the first kind, \<open>run_codec\<close> the second when all
  bytes are equal, and \<open>mixed_codec\<close> stores at \<^verbatim>\<open>maxbits\<close> 9 and shortens runs above.
\<close>

definition marker_decompress :: "byte list \<Rightarrow> int \<times> nat \<times> byte list" where
  "marker_decompress bs =
     (case bs of
        [] \<Rightarrow> (1, 0, [])
      | b # rest \<Rightarrow>
          if b = 0 then (0, length bs, rest)
          else if b = 1 \<and> length rest = 5
          then (0, length bs, replicate (unat (from_le32 (take 4 rest))) (rest ! 4))
          else (1, 1, []))"

definition stored_compress :: "byte list \<Rightarrow> int \<times> nat \<times> byte list" where
  "stored_compress bs = (0, length bs, 0 # bs)"

definition run_compress :: "byte list \<Rightarrow> int \<times> nat \<times> byte list" where
  "run_compress bs =
     (if bs \<noteq> [] \<and> bs = replicate (length bs) (hd bs) \<and> length bs < 2 ^ 32
      then (0, length bs, 1 # le32 (of_nat (length bs)) @ [hd bs])
      else stored_compress bs)"

definition stored_codec :: lzw_codec where
  "stored_codec = \<lparr> lzw_compress = (\<lambda>maxbits. stored_compress), lzw_decompress = marker_decompress \<rparr>"

definition run_codec :: lzw_codec where
  "run_codec = \<lparr> lzw_compress = (\<lambda>maxbits. run_compress), lzw_decompress = marker_decompress \<rparr>"

definition mixed_codec :: lzw_codec where
  "mixed_codec = \<lparr> lzw_compress = (\<lambda>maxbits. if maxbits = 9 then stored_compress else run_compress),
                    lzw_decompress = marker_decompress \<rparr>"

subsection \<open>Predicates and concrete inputs used in the properties\<close>

text \<open>The frame accounting of \<^verbatim>\<open>main\<close>: every input frame is written, discarded or in the ring.\<close>

definition conserved :: "state \<Rightarrow> bool" where
  "conserved s \<longleftrightarrow>
     samples_written s + samples_discarded s + output_buffer_index s = num_samples s"

text \<open>The streamers of \<^verbatim>\<open>write_tensor_file\<close> between two trials that stayed inside the
  scratch buffer, and the loop state with them.\<close>

definition fit_state :: "byte list \<Rightarrow> streamer \<Rightarrow> streamer \<Rightarrow> bool" where
  "fit_state T r w \<longleftrightarrow> size_s r = sizeof_tensor \<and> buffer r = T \<and>
     size_s w = sizeof_tensor \<and> length (buffer w) = sizeof_tensor \<and> wrapped w = 0"

definition trial_state_ok ::
  "byte list \<Rightarrow> streamer \<times> streamer \<times> nat option \<times> nat \<Rightarrow> bool" where
  "trial_state_ok T st \<longleftrightarrow>
     (case st of (r, w, best, smallest) \<Rightarrow>
        fit_state T r w \<and>
        (case best of None \<Rightarrow> smallest > sizeof_tensor | Some b \<Rightarrow> b \<in> {9 ..< 17}))"

text \<open>The update of \<^verbatim>\<open>best_maxbits\<close> and \<^verbatim>\<open>smallest_output\<close> after a trial at
  \<open>m\<close> whose output has \<open>len m\<close> bytes.\<close>

definition pick :: "(nat \<Rightarrow> nat) \<Rightarrow> nat option \<times> nat \<Rightarrow> nat \<Rightarrow> nat option \<times> nat" where
  "pick len bs m = (if len m < snd bs then (Some m, len m) else bs)"

text \<open>Options \<^verbatim>\<open>-s11025 -k -m\<close>, and states of \<^verbatim>\<open>main\<close>: with the results ring
  filled to its resting length, and after three input frames.\<close>

definition options_11025 :: config where
  "options_11025 = \<lparr> sample_rate = 11025, keepalive = True, skip_mode = SKIP_MUSIC, threshold = 0 \<rparr>"

definition full_ring :: state where
  "full_ring = (initial_state (replicate 25 0))\<lparr>results_buffer_count := 24\<rparr>"

definition three_frames :: state where
  "three_frames = (initial_state (replicate 25 0))
     \<lparr>level_buffer_index := 3, output_buffer_index := 3, num_samples := 3\<rparr>"

text \<open>Exact real arithmetic as one instance of the operations, a short level window,
  and the state of the scan after it.\<close>

definition real_ops :: "real float_ops" where
  "real_ops = \<lparr> fless = (<), fdivf = (/), fdiv = (/), fmul = (*), fsqrt = sqrt, fcbrt = root 3 \<rparr>"

definition example_levels :: "real list" where
  "example_levels = [2, 1, 32, 64, 4, 2, 40, 50, 3, 64]"

definition example_scan :: "real scan" where
  "example_scan =
     \<lparr> prev_peak = 64, prev_trough = 3, prev_peak_pos = 7, prev_trough_pos = 5,
       zones = [4, 0, 5, 0], cycles = 5,
       trigger_points = (replicate 128 0)[0 := 1, 1 := 3, 2 := 5, 3 := 7, 4 := 5] \<rparr>"

text \<open>What the local \<^verbatim>\<open>result\<close> of \<^verbatim>\<open>analyze_window\<close> may hold on entry.\<close>

definition stack_garbage :: analysis_result where
  "stack_garbage = \<lparr> range_dB = 0xAA, result_cycles = 0xAA, low_third = 0xAA, mid_third = 0xAA,
                       high_third = 0xAA, attack_ratio = 0xAA, peak_jitter = 0xAA, spare = 0xAA \<rparr>"

text \<open>A tensor with 99 in every cell, a zeroed buffer of the tensor's size, and the file
  that results when the payload is cut down to its last byte.\<close>

definition music_tensor :: "byte list" where
  "music_tensor = replicate sizeof_tensor 99"

definition zero_bytes :: "byte list" where
  "zero_bytes = replicate sizeof_tensor 0"

definition stored_file :: "byte list" where
  "stored_file = header_bytes \<lparr>version = TENSOR_VERSION, checksum = add_checksum 0 music_tensor,
                               dimensions = tensor_dimensions\<rparr> @ [99]"

section \<open>Properties\<close>

subsection \<open>Linear fades\<close>

lemma div_split_sum_nonneg:
  fixes p q m n :: int
  assumes n: "0 < n" and s: "p + q = m * n" and p: "0 \<le> p" and q: "0 \<le> q"
  shows "p div n + q div n = (if n dvd q then m else m - 1)"
proof -
  define c where "c = q div n"
  define r where "r = q mod n"
  have qd: "q = n * c + r" and r: "0 \<le> r" "r < n"
    using n by (simp_all add: c_def r_def)
  show ?thesis
  proof (cases "r = 0")
    case True
    then have "p = n * (m - c) + 0" using s qd by (simp add: algebra_simps)
    then have "p div n = m - c" using n by simp
    moreover have "n dvd q" using True qd by simp
    ultimately show ?thesis by (simp add: c_def)
  next
    case False
    then have "p = n * (m - c - 1) + (n - r)" using s qd by (simp add: algebra_simps)
    then have "p div n = m - c - 1"
      using r False by (intro int_div_pos_eq [where r = "n - r"]) auto
    moreover have "\<not> n dvd q" using False by (simp add: r_def dvd_eq_mod_eq_0)
    ultimately show ?thesis by (simp add: c_def)
  qed
qed

lemma sdiv_nonneg_pos: "0 \<le> x \<Longrightarrow> 0 < n \<Longrightarrow> (x::int) sdiv n = x div n"
  by (cases "x = 0") (simp_all add: signed_divide_int_def sgn_if)

lemma sdiv_nonpos_pos: "x \<le> 0 \<Longrightarrow> 0 < n \<Longrightarrow> (x::int) sdiv n = - ((- x) div n)"
  by (cases "x = 0") (simp_all add: signed_divide_int_def sgn_if)

lemma sdiv_split_sum:
  fixes a :: int and k l n :: nat
  assumes n: "0 < n" and kl: "k + l = n"
  shows "(a * int k) sdiv int n + (a * int l) sdiv int n
           = (if int n dvd a * int l then a else a - sgn a)"
proof (cases "0 \<le> a")
  case True
  have e: "(a * int k) sdiv int n = (a * int k) div int n"
          "(a * int l) sdiv int n = (a * int l) div int n"
    using True n by (simp_all add: sdiv_nonneg_pos)
  have "int k + int l = int n" using kl by simp
  then have "a * int k + a * int l = a * int n" by (simp flip: distrib_left)
  from div_split_sum_nonneg [OF _ this] True n
  have "(a * int k) div int n + (a * int l) div int n = (if int n dvd a * int l then a else a - 1)"
    by simp
  moreover have "a \<noteq> 0 \<or> int n dvd a * int l" by auto
  ultimately show ?thesis using True e by (auto simp: sgn_if)
next
  case False
  then have neg: "a < 0" by simp
  have e: "(a * int k) sdiv int n = - ((- a * int k) div int n)"
          "(a * int l) sdiv int n = - ((- a * int l) div int n)"
    using neg n by (simp_all add: sdiv_nonpos_pos mult_nonpos_nonneg)
  have "int k + int l = int n" using kl by simp
  then have "- a * (int k + int l) = - a * int n" by simp
  then have "- a * int k + - a * int l = - a * int n" by (simp only: distrib_left)
  moreover have "0 \<le> - a * int k" "0 \<le> - a * int l"
    using neg by (simp_all add: mult_nonpos_nonneg)
  ultimately have "(- a * int k) div int n + (- a * int l) div int n
          = (if int n dvd - a * int l then - a else - a - 1)"
    using n by (intro div_split_sum_nonneg) simp_all
  then show ?thesis using neg e by (auto simp: sgn_if)
qed

lemma sdiv_scale_bound:
  fixes a :: int and k n :: nat
  assumes "k \<le> n" "0 < n"
  shows "\<bar>(a * int k) sdiv int n\<bar> \<le> \<bar>a\<bar>"
proof -
  have "\<bar>a\<bar> * int k \<le> \<bar>a\<bar> * int n" using assms by (simp add: mult_left_mono)
  then have "(\<bar>a\<bar> * int k) div int n \<le> \<bar>a\<bar>"
    using assms(2) by (metis div_mult_self1_is_m nonzero_mult_div_cancel_right of_nat_0_less_iff zdiv_mono1 less_irrefl)
  moreover have "0 \<le> (\<bar>a\<bar> * int k) div int n" by (simp add: pos_imp_zdiv_nonneg_iff assms(2))
  ultimately show ?thesis
    by (auto simp: signed_divide_int_def abs_mult sgn_if)
qed

lemma sint_scale_sample:
  assumes "k \<le> n" "0 < n"
  shows "sint (scale_sample x k n) = (sint x * int k) sdiv int n"
proof -
  have b: "\<bar>(sint x * int k) sdiv int n\<bar> \<le> \<bar>sint x\<bar>" by (rule sdiv_scale_bound [OF assms])
  have lo: "- (2 ^ 15) \<le> sint x" and hi: "sint x < 2 ^ 15"
    using sint_ge [of x] sint_lt [of x] by simp_all
  have s1: "0 \<le> sint x \<Longrightarrow> 0 \<le> (sint x * int k) sdiv int n"
    using assms(2) by (simp add: sdiv_nonneg_pos pos_imp_zdiv_nonneg_iff)
  have s2: "sint x \<le> 0 \<Longrightarrow> (sint x * int k) sdiv int n \<le> 0"
    using assms(2) by (simp add: sdiv_nonpos_pos mult_nonpos_nonneg pos_imp_zdiv_nonneg_iff)
  have "- (2 ^ 15) \<le> (sint x * int k) sdiv int n \<and> (sint x * int k) sdiv int n < 2 ^ 15"
    using b lo hi s1 s2 by (cases "0 \<le> sint x") auto
  then show ?thesis
    unfolding scale_sample_def by (simp add: sint_sbintrunc' signed_take_bit_int_eq_self)
qed

lemma length_fade_out_loop [simp]: "length (fade_out_loop t n stride pos xs) = length xs"
  by (induction n arbitrary: pos xs) simp_all

lemma length_fade_in_loop [simp]: "length (fade_in_loop t n stride pos xs) = length xs"
  by (induction n arbitrary: pos xs) simp_all

lemma fade_out_loop_nth:
  "pos + n \<le> length xs \<Longrightarrow> j < length xs \<Longrightarrow>
   fade_out_loop t n (Suc 0) pos xs ! j =
     (if pos \<le> j \<and> j < pos + n then scale_sample (xs ! j) (n - 1 - (j - pos)) t else xs ! j)"
proof (induction n arbitrary: pos xs)
  case 0
  then show ?case by auto
next
  case (Suc n)
  let ?ys = "xs[pos := scale_sample (xs ! pos) n t]"
  have "Suc pos + n \<le> length ?ys" "j < length ?ys" using Suc.prems by simp_all
  from Suc.IH [OF this] show ?case
    using Suc.prems by (auto simp: nth_list_update Suc_diff_le)
qed

lemma fade_in_loop_nth:
  "pos + n \<le> length xs \<Longrightarrow> j < length xs \<Longrightarrow>
   fade_in_loop t n (Suc 0) pos xs ! j =
     (if pos \<le> j \<and> j < pos + n then scale_sample (xs ! j) (t - (n - 1 - (j - pos))) t else xs ! j)"
proof (induction n arbitrary: pos xs)
  case 0
  then show ?case by auto
next
  case (Suc n)
  let ?ys = "xs[pos := scale_sample (xs ! pos) (t - n) t]"
  have "Suc pos + n \<le> length ?ys" "j < length ?ys" using Suc.prems by simp_all
  from Suc.IH [OF this] show ?case
    using Suc.prems by (auto simp: nth_list_update Suc_diff_le)
qed

lemma fade_out_nth:
  "n \<le> length xs \<Longrightarrow> i < n \<Longrightarrow> fade_out xs n (Suc 0) ! i = scale_sample (xs ! i) (n - 1 - i) n"
  by (simp add: fade_out_def fade_out_loop_nth)

lemma fade_in_nth:
  "n \<le> length xs \<Longrightarrow> i < n \<Longrightarrow> fade_in xs n (Suc 0) ! i = scale_sample (xs ! i) (Suc i) n"
proof -
  assume a: "n \<le> length xs" "i < n"
  then have "n - (n - 1 - i) = Suc i" by simp
  with a show ?thesis by (simp add: fade_in_def fade_in_loop_nth)
qed

text \<open>
  Claim C4, as the code has it. For a constant input \<open>x\<close>, a fade of length \<open>n\<close> and an
  index \<open>i < n\<close>, \<^verbatim>\<open>fade_out\<close> leaves \<open>x * (n - 1 - i) / n\<close> and \<^verbatim>\<open>fade_in\<close> leaves
  \<open>x * (i + 1) / n\<close>, each truncated towards zero. Their sum is \<open>x\<close> when \<open>n\<close> divides
  \<open>x * (i + 1)\<close>, and otherwise one step nearer to zero than \<open>x\<close>: the fades are complementary
  up to the truncation of the two integer divisions, not exactly.
\<close>

theorem crossfade_sum:
  assumes "i < n"
  shows "sint (fade_out (replicate n x) n 1 ! i) + sint (fade_in (replicate n x) n 1 ! i)
           = (if int n dvd sint x * int (Suc i) then sint x else sint x - sgn (sint x))"
proof -
  have n: "0 < n" and kl: "(n - 1 - i) + Suc i = n" using assms by simp_all
  have "sint (fade_out (replicate n x) n 1 ! i) = (sint x * int (n - 1 - i)) sdiv int n"
    using assms by (simp add: fade_out_nth sint_scale_sample)
  moreover have "sint (fade_in (replicate n x) n 1 ! i) = (sint x * int (Suc i)) sdiv int n"
    using assms by (simp add: fade_in_nth sint_scale_sample)
  ultimately show ?thesis
    using sdiv_split_sum [OF n kl, of "sint x"] by simp
qed

theorem crossfade_sum_witness:
  "(1::nat) < 4 \<and>
   sint (fade_out (replicate 4 3) 4 1 ! 1) + sint (fade_in (replicate 4 3) 4 1 ! 1) = 2"
  using crossfade_sum [of 1 4 3] by simp

text \<open>
  Claim C4 as stated fails: with the fade length that \<^verbatim>\<open>main\<close> uses at 11025 Hz
  (\<^verbatim>\<open>crossfade_buff_len * 2\<close> = 44100) and the constant sample 1, both fades leave 0 at
  index 0.
\<close>

theorem crossfade_not_complementary:
  "sint (fade_out (replicate 44100 1) 44100 1 ! 0) + sint (fade_in (replicate 44100 1) 44100 1 ! 0)
     \<noteq> sint (1 :: s16)"
  by (simp add: fade_out_nth fade_in_nth sint_scale_sample sdiv_nonneg_pos)

subsection \<open>Keep-alive scaling\<close>

lemma prescale_fold:
  "length (foldl (\<lambda>b i. b[p + i := keepalive_shift (b ! (p + i))]) buf [0 ..< m]) = length buf \<and>
   (\<forall>j < length buf.
      foldl (\<lambda>b i. b[p + i := keepalive_shift (b ! (p + i))]) buf [0 ..< m] ! j =
        (if p \<le> j \<and> j < p + m then keepalive_shift (buf ! j) else buf ! j))"
proof (induction m)
  case 0
  then show ?case by auto
next
  case (Suc m)
  let ?b = "foldl (\<lambda>b i. b[p + i := keepalive_shift (b ! (p + i))]) buf [0 ..< m]"
  from Suc have len: "length ?b = length buf"
    and nth: "\<And>j. j < length buf \<Longrightarrow>
        ?b ! j = (if p \<le> j \<and> j < p + m then keepalive_shift (buf ! j) else buf ! j)"
    by simp_all
  have "(?b[p + m := keepalive_shift (?b ! (p + m))]) ! j =
          (if p \<le> j \<and> j < p + Suc m then keepalive_shift (buf ! j) else buf ! j)"
    if "j < length buf" for j
  proof (cases "j = p + m")
    case True
    then show ?thesis using that len nth [of j] by simp
  next
    case False
    then show ?thesis using that len nth [of j] by (auto simp: nth_list_update)
  qed
  then show ?case using len by simp
qed

lemma keepalive_prescale_nth:
  "j < length buf \<Longrightarrow>
   keepalive_prescale buf s len ! j =
     (if s * 2 \<le> j \<and> j < s * 2 + len * 4 then keepalive_shift (buf ! j) else buf ! j)"
  using prescale_fold [of "s * 2" buf "len * 4"] by (simp add: keepalive_prescale_def)

lemma sint_keepalive_shift: "sint (keepalive_shift x) = sint x div 4"
  by (simp add: keepalive_shift_def sint_signed_drop_bit_eq drop_bit_eq_div)

text \<open>
  Claim C8, as the code has it. The keep-alive branch replaces each of the
  \<^verbatim>\<open>crossfade_buff_len * 4\<close> samples (two crossfade lengths of stereo frames) from
  \<^verbatim>\<open>crossfade_start * 2\<close> on by its arithmetic shift right by two, the floor of a quarter
  of the sample, and leaves every other sample of the ring as it was.
\<close>

theorem keepalive_quarter_amplitude:
  assumes "j < length output_buffer"
  shows "sint (keepalive_prescale output_buffer start len ! j) =
           (if start * 2 \<le> j \<and> j < start * 2 + len * 4
            then sint (output_buffer ! j) div 4 else sint (output_buffer ! j))"
  using assms by (simp add: keepalive_prescale_nth sint_keepalive_shift)

theorem keepalive_quarter_amplitude_witness:
  "(1::nat) < length [100, -100, 7, -7 :: s16] \<and>
   sint (keepalive_prescale [100, -100, 7, -7] 0 1 ! 1) = - 25"
  using keepalive_quarter_amplitude [of 1 "[100, -100, 7, -7]" 0 1] by simp

text \<open>
  Claim C8 as stated fails: in a ring of 120 s at 11025 Hz holding the constant sample 100,
  a sample inside the scaled region becomes 25, not 50.
\<close>

theorem keepalive_not_halved:
  "sint (keepalive_prescale (replicate 2646000 100) 300000 22050 ! 600000) \<noteq> sint (100 :: s16) sdiv 2"
  by (simp add: keepalive_prescale_nth sint_keepalive_shift)



subsection \<open>Results ring\<close>

lemma AVERAGE_COUNT_25 [simp]: "AVERAGE_COUNT = 25"
  by (simp add: AVERAGE_COUNT_def signed_divide_int_def)

lemma results_push_full:
  assumes "results_buffer_count s = 24" "length (results_buffer s) = 25"
  shows "fst (results_push v s) = Some (sum_list (map sint (take 24 (results_buffer s))) + sint v)"
    and "results_buffer_count (snd (results_push v s)) = 24"
    and "length (results_buffer (snd (results_push v s))) = 25"
    and "take 24 (results_buffer (snd (results_push v s))) = drop 1 (take 24 (results_buffer s)) @ [v]"
proof -
  obtain xs x where xs: "results_buffer s = xs @ [x]" "length xs = 24"
    using assms(2) by (cases "results_buffer s" rule: rev_cases) auto
  have upd: "(xs @ [x])[24 := v] = xs @ [v]"
    using list_update_length [of xs x "[]" v] xs(2) by simp
  show "fst (results_push v s) = Some (sum_list (map sint (take 24 (results_buffer s))) + sint v)"
    using assms xs upd by (simp add: results_push_def Let_def)
  show "results_buffer_count (snd (results_push v s)) = 24"
    using assms by (simp add: results_push_def Let_def)
  show "length (results_buffer (snd (results_push v s))) = 25"
    using assms by (simp add: results_push_def Let_def)
  show "take 24 (results_buffer (snd (results_push v s))) = drop 1 (take 24 (results_buffer s)) @ [v]"
    using assms xs upd by (simp add: results_push_def Let_def)
qed

lemma results_push_filling:
  assumes "results_buffer_count s < 24" "length (results_buffer s) = 25"
  shows "fst (results_push v s) = None"
    and "results_buffer_count (snd (results_push v s)) = results_buffer_count s + 1"
    and "length (results_buffer (snd (results_push v s))) = 25"
    and "take (results_buffer_count s + 1) (results_buffer (snd (results_push v s)))
           = take (results_buffer_count s) (results_buffer s) @ [v]"
  using assms by (simp_all add: results_push_def Let_def take_Suc_conv_app_nth)

lemma push_all_snoc: "push_all (vs @ [v]) s = results_push v (snd (push_all vs s))"
  by (simp add: push_all_def split_beta)

lemma push_all_invariant:
  assumes "length ring = 25"
  shows "length (results_buffer (snd (push_all vs (initial_state ring)))) = 25 \<and>
         results_buffer_count (snd (push_all vs (initial_state ring))) = min (length vs) 24 \<and>
         take (min (length vs) 24) (results_buffer (snd (push_all vs (initial_state ring))))
           = drop (length vs - 24) vs \<and>
         fst (push_all vs (initial_state ring))
           = (if length vs \<ge> 25 then Some (sum_list (map sint (drop (length vs - 25) vs))) else None)"
proof (induction vs rule: rev_induct)
  case Nil
  then show ?case using assms by (simp add: push_all_def initial_state_def)
next
  case (snoc v vs)
  let ?s = "snd (push_all vs (initial_state ring))"
  from snoc have len: "length (results_buffer ?s) = 25"
    and cnt: "results_buffer_count ?s = min (length vs) 24"
    and tk: "take (min (length vs) 24) (results_buffer ?s) = drop (length vs - 24) vs"
    by simp_all
  show ?case
  proof (cases "length vs < 24")
    case True
    then have c: "results_buffer_count ?s < 24" "results_buffer_count ?s = length vs" using cnt by simp_all
    from results_push_filling [OF c(1) len, of v] True c(2) tk
    show ?thesis by (simp add: push_all_snoc min_def)
  next
    case False
    then have c: "results_buffer_count ?s = 24" using cnt by simp
    have d: "drop (length vs - 24) vs = drop (length vs - 24) vs" ..
    have l24: "length (drop (length vs - 24) vs) = 24" using False by simp
    have e: "drop (Suc (length vs) - 25) (vs @ [v]) = drop (length vs - 24) vs @ [v]"
      using False by simp
    have f: "drop (Suc (length vs) - 24) (vs @ [v]) = drop 1 (drop (length vs - 24) vs) @ [v]"
    proof -
      have "Suc (length vs) - 24 = Suc (length vs - 24)" using False by simp
      then show ?thesis by simp
    qed
    have g: "Suc (length vs - 24) = length vs - 23" using False by simp
    from results_push_full [OF c len, of v] tk False
    show ?thesis by (simp add: push_all_snoc e f g)
  qed
qed

lemma music_tendency_24:
  "results_buffer_count s = 24 \<Longrightarrow> music_tendency cfg S s \<longleftrightarrow> S > threshold cfg * 24"
  by (simp add: music_tendency_def)

text \<open>
  Claim C5, as the code has it. Once \<^verbatim>\<open>AVERAGE_COUNT\<close> = 25 lookups have come in, every
  window has a smoothed score, and each of them, the first and every later one, is the sum
  of the 25 most recent lookups: the 24 that the ring kept and the new one, added up before
  the oldest is popped. After the pop the ring holds 24 values, and music tendency is the
  test of that sum of 25 against \<^verbatim>\<open>threshold * 24\<close>.
\<close>

theorem smoothed_score_25:
  assumes "length ring = AVERAGE_COUNT" and "length lookups \<ge> AVERAGE_COUNT"
  shows "fst (push_all lookups (initial_state ring))
           = Some (sum_list (map sint (drop (length lookups - 25) lookups))) \<and>
         results_buffer_count (snd (push_all lookups (initial_state ring))) = 24 \<and>
         (music_tendency cfg S (snd (push_all lookups (initial_state ring)))
            \<longleftrightarrow> S > threshold cfg * 24)"
  using assms push_all_invariant [of ring lookups] by (simp add: music_tendency_def)

theorem smoothed_score_25_witness:
  "fst (push_all (replicate 25 3 @ [5, 7]) (initial_state (replicate 25 0))) = Some 81 \<and>
   results_buffer_count (snd (push_all (replicate 25 3 @ [5, 7]) (initial_state (replicate 25 0)))) = 24"
  using smoothed_score_25 [of "replicate 25 0" "replicate 25 3 @ [5, 7]"]
  by (simp add: sum_list_replicate)

text \<open>
  Claim C5 as stated fails where it lets the sums after the first run over 24 values: with
  the lookup 1 in each of 26 windows, the second smoothed score is 25, which no 24 of the
  values add up to.
\<close>

theorem second_sum_has_25_values:
  "fst (push_all (replicate 26 1) (initial_state (replicate 25 0))) = Some 25"
  using push_all_invariant [of "replicate 25 0" "replicate 26 1"]
  by (simp add: sum_list_replicate)

subsection \<open>Segmentation state machine\<close>

lemma music_step:
  assumes "music_tendency cfg S (s\<lparr>num_samples := n\<rparr>)" "current_mode s \<noteq> MODE_MUSIC"
  shows "fst (state_machine cfg S (s\<lparr>num_samples := n\<rparr>))
           = (if music_up_counter s + 1 = 100 then MODE_MUSIC else MODE_NOTHING)"
    and "music_up_counter (snd (state_machine cfg S (s\<lparr>num_samples := n\<rparr>)))
           = (if music_up_counter s + 1 = 100 then 0 else music_up_counter s + 1)"
    and "current_mode (snd (state_machine cfg S (s\<lparr>num_samples := n\<rparr>))) = current_mode s"
    and "results_buffer_count (snd (state_machine cfg S (s\<lparr>num_samples := n\<rparr>))) = results_buffer_count s"
  using assms
  by (simp_all add: state_machine_def latch_transition_def Let_def signed_divide_int_def)

lemma talk_step:
  assumes "\<not> music_tendency cfg S (s\<lparr>num_samples := n\<rparr>)" "current_mode s \<noteq> MODE_TALK"
  shows "fst (state_machine cfg S (s\<lparr>num_samples := n\<rparr>))
           = (if talk_up_counter s + 1 = 50 then MODE_TALK else MODE_NOTHING)"
    and "talk_up_counter (snd (state_machine cfg S (s\<lparr>num_samples := n\<rparr>)))
           = (if talk_up_counter s + 1 = 50 then 0 else talk_up_counter s + 1)"
    and "current_mode (snd (state_machine cfg S (s\<lparr>num_samples := n\<rparr>))) = current_mode s"
    and "results_buffer_count (snd (state_machine cfg S (s\<lparr>num_samples := n\<rparr>))) = results_buffer_count s"
  using assms
  by (simp_all add: state_machine_def latch_transition_def Let_def signed_divide_int_def)

lemma music_tendency_cong:
  "results_buffer_count s' = results_buffer_count s \<Longrightarrow> music_tendency cfg S s' = music_tendency cfg S s"
  by (simp add: music_tendency_def)

lemma music_run:
  assumes "current_mode s \<noteq> MODE_MUSIC" "0 \<le> music_up_counter s"
    and "music_up_counter s + int (length ws) < 100"
    and "\<forall>(n, S) \<in> set ws. music_tendency cfg S s"
  shows "fst (detections cfg ws s) = replicate (length ws) MODE_NOTHING \<and>
         music_up_counter (snd (detections cfg ws s)) = music_up_counter s + int (length ws) \<and>
         current_mode (snd (detections cfg ws s)) = current_mode s \<and>
         results_buffer_count (snd (detections cfg ws s)) = results_buffer_count s"
  using assms
proof (induction ws arbitrary: s)
  case Nil
  then show ?case by simp
next
  case (Cons w ws)
  obtain n S where w: "w = (n, S)" by (cases w)
  let ?s0 = "s\<lparr>num_samples := n\<rparr>"
  let ?s1 = "snd (state_machine cfg S ?s0)"
  have t: "music_tendency cfg S ?s0"
    using Cons.prems(4) w by (simp add: music_tendency_def)
  note st = music_step [OF t Cons.prems(1)]
  have c: "music_up_counter s + 1 \<noteq> 100" using Cons.prems(2,3) by simp
  have d: "fst (state_machine cfg S ?s0) = MODE_NOTHING" using st(1) c by simp
  have "\<forall>(n, S) \<in> set ws. music_tendency cfg S ?s1"
    using Cons.prems(4) st(4) by (auto simp: music_tendency_def)
  moreover have "current_mode ?s1 \<noteq> MODE_MUSIC" "0 \<le> music_up_counter ?s1"
    "music_up_counter ?s1 + int (length ws) < 100"
    using st c Cons.prems by simp_all
  ultimately have IH: "fst (detections cfg ws ?s1) = replicate (length ws) MODE_NOTHING \<and>
         music_up_counter (snd (detections cfg ws ?s1)) = music_up_counter ?s1 + int (length ws) \<and>
         current_mode (snd (detections cfg ws ?s1)) = current_mode ?s1 \<and>
         results_buffer_count (snd (detections cfg ws ?s1)) = results_buffer_count ?s1"
    by (intro Cons.IH) 
  show ?case using IH d st c by (simp add: w split_beta Let_def)
qed

lemma talk_run:
  assumes "current_mode s \<noteq> MODE_TALK" "0 \<le> talk_up_counter s"
    and "talk_up_counter s + int (length ws) < 50"
    and "\<forall>(n, S) \<in> set ws. \<not> music_tendency cfg S s"
  shows "fst (detections cfg ws s) = replicate (length ws) MODE_NOTHING \<and>
         talk_up_counter (snd (detections cfg ws s)) = talk_up_counter s + int (length ws) \<and>
         current_mode (snd (detections cfg ws s)) = current_mode s \<and>
         results_buffer_count (snd (detections cfg ws s)) = results_buffer_count s"
  using assms
proof (induction ws arbitrary: s)
  case Nil
  then show ?case by simp
next
  case (Cons w ws)
  obtain n S where w: "w = (n, S)" by (cases w)
  let ?s0 = "s\<lparr>num_samples := n\<rparr>"
  let ?s1 = "snd (state_machine cfg S ?s0)"
  have t: "\<not> music_tendency cfg S ?s0"
    using Cons.prems(4) w by (simp add: music_tendency_def)
  note st = talk_step [OF t Cons.prems(1)]
  have c: "talk_up_counter s + 1 \<noteq> 50" using Cons.prems(2,3) by simp
  have d: "fst (state_machine cfg S ?s0) = MODE_NOTHING" using st(1) c by simp
  have "\<forall>(n, S) \<in> set ws. \<not> music_tendency cfg S ?s1"
    using Cons.prems(4) st(4) by (auto simp: music_tendency_def)
  moreover have "current_mode ?s1 \<noteq> MODE_TALK" "0 \<le> talk_up_counter ?s1"
    "talk_up_counter ?s1 + int (length ws) < 50"
    using st c Cons.prems by simp_all
  ultimately have IH: "fst (detections cfg ws ?s1) = replicate (length ws) MODE_NOTHING \<and>
         talk_up_counter (snd (detections cfg ws ?s1)) = talk_up_counter ?s1 + int (length ws) \<and>
         current_mode (snd (detections cfg ws ?s1)) = current_mode ?s1 \<and>
         results_buffer_count (snd (detections cfg ws ?s1)) = results_buffer_count ?s1"
    by (intro Cons.IH) 
  show ?case using IH d st c by (simp add: w split_beta Let_def)
qed

lemma detections_append:
  "detections cfg (xs @ ys) s =
     (fst (detections cfg xs s) @ fst (detections cfg ys (snd (detections cfg xs s))),
      snd (detections cfg ys (snd (detections cfg xs s))))"
  by (induction xs arbitrary: s) (auto simp: split_beta Let_def)

lemma music_confirmation:
  assumes "current_mode s \<noteq> MODE_MUSIC" "music_up_counter s = 0" "length ws = 100"
    and "\<forall>(n, S) \<in> set ws. music_tendency cfg S s"
  shows "fst (detections cfg ws s) = replicate 99 MODE_NOTHING @ [MODE_MUSIC] \<and>
         music_up_counter (snd (detections cfg ws s)) = 0 \<and>
         current_mode (snd (detections cfg ws s)) = MODE_MUSIC"
proof -
  obtain ws1 w where ws: "ws = ws1 @ [w]" "length ws1 = 99"
    using assms(3) by (cases ws rule: rev_cases) auto
  obtain n S where w: "w = (n, S)" by (cases w)
  let ?s1 = "snd (detections cfg ws1 s)"
  have r: "fst (detections cfg ws1 s) = replicate (length ws1) MODE_NOTHING \<and>
         music_up_counter ?s1 = music_up_counter s + int (length ws1) \<and>
         current_mode ?s1 = current_mode s \<and>
         results_buffer_count ?s1 = results_buffer_count s"
    using assms ws by (intro music_run) auto
  have t: "music_tendency cfg S (?s1\<lparr>num_samples := n\<rparr>)"
    using assms(4) ws w r by (simp add: music_tendency_def)
  have m: "current_mode ?s1 \<noteq> MODE_MUSIC" using r assms(1) by simp
  note st = music_step [OF t m]
  have c: "music_up_counter ?s1 + 1 = 100" using r ws(2) assms(2) by simp
  show ?thesis
    using r ws(2) st c by (simp add: ws(1) w detections_append split_beta Let_def)
qed

lemma talk_confirmation:
  assumes "current_mode s \<noteq> MODE_TALK" "talk_up_counter s = 0" "length ws = 50"
    and "\<forall>(n, S) \<in> set ws. \<not> music_tendency cfg S s"
  shows "fst (detections cfg ws s) = replicate 49 MODE_NOTHING @ [MODE_TALK] \<and>
         talk_up_counter (snd (detections cfg ws s)) = 0 \<and>
         current_mode (snd (detections cfg ws s)) = MODE_TALK"
proof -
  obtain ws1 w where ws: "ws = ws1 @ [w]" "length ws1 = 49"
    using assms(3) by (cases ws rule: rev_cases) auto
  obtain n S where w: "w = (n, S)" by (cases w)
  let ?s1 = "snd (detections cfg ws1 s)"
  have r: "fst (detections cfg ws1 s) = replicate (length ws1) MODE_NOTHING \<and>
         talk_up_counter ?s1 = talk_up_counter s + int (length ws1) \<and>
         current_mode ?s1 = current_mode s \<and>
         results_buffer_count ?s1 = results_buffer_count s"
    using assms ws by (intro talk_run) auto
  have t: "\<not> music_tendency cfg S (?s1\<lparr>num_samples := n\<rparr>)"
    using assms(4) ws w r by (simp add: music_tendency_def)
  have m: "current_mode ?s1 \<noteq> MODE_TALK" using r assms(1) by simp
  note st = talk_step [OF t m]
  have c: "talk_up_counter ?s1 + 1 = 50" using r ws(2) assms(2) by simp
  show ?thesis
    using r ws(2) st c by (simp add: ws(1) w detections_append split_beta Let_def)
qed

text \<open>
  Claim C3. From a state with \<^verbatim>\<open>music_up_counter\<close> = 0 and a current mode other than
  MUSIC, a run of 100 windows that all have music tendency yields no detection in the first
  99 and the detection of MUSIC in the 100th, with the counter back at 0; and from a state
  with \<^verbatim>\<open>talk_up_counter\<close> = 0 and a current mode other than TALK, 50 windows without
  music tendency yield the detection of TALK in the 50th and in none before, with the
  counter back at 0. The statement is about the state machine block; the splice that
  follows a detection and the flush of the ring can still end the program.
\<close>

theorem confirmation_latency:
  "(current_mode s \<noteq> MODE_MUSIC \<and> music_up_counter s = 0 \<and> length ws = 100 \<and>
      (\<forall>(n, S) \<in> set ws. music_tendency cfg S s)
    \<longrightarrow> fst (detections cfg ws s) = replicate 99 MODE_NOTHING @ [MODE_MUSIC] \<and>
        music_up_counter (snd (detections cfg ws s)) = 0) \<and>
   (current_mode s' \<noteq> MODE_TALK \<and> talk_up_counter s' = 0 \<and> length ws' = 50 \<and>
      (\<forall>(n, S) \<in> set ws'. \<not> music_tendency cfg S s')
    \<longrightarrow> fst (detections cfg ws' s') = replicate 49 MODE_NOTHING @ [MODE_TALK] \<and>
        talk_up_counter (snd (detections cfg ws' s')) = 0)"
  using music_confirmation [of s ws cfg] talk_confirmation [of s' ws' cfg] by blast



theorem confirmation_latency_witness:
  "fst (detections options_11025 (replicate 100 (0, 1)) full_ring) = replicate 99 0 @ [1] \<and>
   music_up_counter (snd (detections options_11025 (replicate 100 (0, 1)) full_ring)) = 0 \<and>
   fst (detections options_11025 (replicate 50 (0, - 1)) full_ring) = replicate 49 0 @ [- 1] \<and>
   talk_up_counter (snd (detections options_11025 (replicate 50 (0, - 1)) full_ring)) = 0"
  using confirmation_latency [of full_ring "replicate 100 (0, 1)" options_11025 full_ring "replicate 50 (0, - 1)"]
  by (simp add: full_ring_def initial_state_def options_11025_def music_tendency_def)

subsection \<open>Frame accounting\<close>

lemma results_push_accounts:
  "samples_written (snd (results_push v s)) = samples_written s"
  "samples_discarded (snd (results_push v s)) = samples_discarded s"
  "output_buffer_index (snd (results_push v s)) = output_buffer_index s"
  "num_samples (snd (results_push v s)) = num_samples s"
  by (simp_all add: results_push_def Let_def)

lemma state_machine_accounts:
  "samples_written (snd (state_machine cfg S s)) = samples_written s"
  "samples_discarded (snd (state_machine cfg S s)) = samples_discarded s"
  "output_buffer_index (snd (state_machine cfg S s)) = output_buffer_index s"
  "num_samples (snd (state_machine cfg S s)) = num_samples s"
  by (simp_all add: state_machine_def latch_transition_def Let_def)

lemma confirm_accounts:
  "samples_written (confirm cfg s) = samples_written s"
  "samples_discarded (confirm cfg s) = samples_discarded s"
  "output_buffer_index (confirm cfg s) = output_buffer_index s"
  "num_samples (confirm cfg s) = num_samples s"
  by (simp_all add: confirm_def)

lemma transition_conserved:
  assumes "conserved s" "transition cfg d s = Inr s'"
  shows "conserved s' \<and> num_samples s' = num_samples s"
  using assms by (auto simp: transition_def conserved_def Let_def split: if_splits)

lemma flush_conserved:
  assumes "conserved s" "flush cfg s = Inr s'"
  shows "conserved s' \<and> num_samples s' = num_samples s"
  using assms by (auto simp: flush_def conserved_def Let_def split: if_splits)

lemma process_window_conserved:
  assumes "conserved s" "process_window cfg v s = Inr s'"
  shows "conserved s' \<and> num_samples s' = num_samples s"
proof -
  let ?s1 = "if sint v > threshold cfg then s\<lparr>music_hits := music_hits s + 1\<rparr>
             else if sint v < threshold cfg then s\<lparr>talk_hits := talk_hits s + 1\<rparr> else s"
  let ?s2 = "snd (results_push v ?s1)"
  have c1: "conserved ?s1" "num_samples ?s1 = num_samples s"
    using assms(1) by (simp_all add: conserved_def)
  have c2: "conserved ?s2" "num_samples ?s2 = num_samples s"
    using c1 by (simp_all add: conserved_def results_push_accounts)
  show ?thesis
  proof (cases "fst (results_push v ?s1)")
    case None
    then have "s' = ?s2\<lparr>level_buffer_index := level_buffer_index ?s2 - step_samples cfg,
                          num_windows := num_windows ?s2 + 1\<rparr>"
      using assms(2) by (simp add: process_window_def Let_def split_beta)
    then show ?thesis using c2 by (simp add: conserved_def)
  next
    case (Some S)
    let ?d = "fst (state_machine cfg S ?s2)"
    let ?s3 = "snd (state_machine cfg S ?s2)"
    have c3: "conserved ?s3" "num_samples ?s3 = num_samples s"
      using c2 by (simp_all add: conserved_def state_machine_accounts)
    from assms(2) Some obtain s4 where t: "transition cfg ?d ?s3 = Inr s4"
      and s': "s' = (confirm cfg s4)\<lparr>level_buffer_index := level_buffer_index (confirm cfg s4) - step_samples cfg,
                          num_windows := num_windows (confirm cfg s4) + 1\<rparr>"
      by (auto simp: process_window_def Let_def split_beta split: sum.splits)
    from transition_conserved [OF c3(1) t] c3(2)
    have "conserved s4" "num_samples s4 = num_samples s" by simp_all
    then show ?thesis using s' by (simp add: conserved_def confirm_accounts)
  qed
qed

lemma process_frame_conserved:
  assumes "conserved s" "process_frame cfg analysis s = Inr s'"
  shows "conserved s' \<and> num_samples s' = num_samples s + 1"
proof -
  let ?s1 = "s\<lparr>level_buffer_index := level_buffer_index s + 1,
               output_buffer_index := output_buffer_index s + 1,
               num_samples := num_samples s + 1\<rparr>"
  have c1: "conserved ?s1" "num_samples ?s1 = num_samples s + 1"
    using assms(1) by (simp_all add: conserved_def)
  from assms(2) obtain s2 where
    w: "(if level_buffer_index ?s1 = level_buff_len cfg
         then process_window cfg (analysis (num_samples ?s1)) ?s1 else Inr ?s1) = Inr s2"
    and f: "flush cfg s2 = Inr s'"
    by (auto simp: process_frame_def Let_def split: sum.splits)
  have "conserved s2 \<and> num_samples s2 = num_samples s + 1"
  proof (cases "level_buffer_index ?s1 = level_buff_len cfg")
    case True
    then have "process_window cfg (analysis (num_samples ?s1)) ?s1 = Inr s2" using w by simp
    from process_window_conserved [OF c1(1) this] c1(2) show ?thesis by simp
  next
    case False
    then have "s2 = ?s1" using w by simp
    then show ?thesis using c1 by simp
  qed
  with flush_conserved [OF _ f] show ?thesis by simp
qed

lemma run_frames_conserved:
  assumes "conserved s" "run_frames cfg analysis n s = Inr s'"
  shows "conserved s' \<and> num_samples s' = num_samples s + int n"
  using assms
proof (induction n arbitrary: s)
  case 0
  then show ?case by simp
next
  case (Suc n)
  from Suc.prems(2) obtain s1 where p: "process_frame cfg analysis s = Inr s1"
    and r: "run_frames cfg analysis n s1 = Inr s'"
    by (auto split: sum.splits)
  from process_frame_conserved [OF Suc.prems(1) p]
  have "conserved s1" "num_samples s1 = num_samples s + 1" by simp_all
  with Suc.IH [OF _ r] show ?case by simp
qed

lemma final_drain_total:
  "conserved s \<Longrightarrow>
   samples_written (final_drain cfg s) + samples_discarded (final_drain cfg s) = num_samples s"
  by (simp add: final_drain_def conserved_def Let_def)

lemma initial_conserved: "conserved (initial_state ring)" "num_samples (initial_state ring) = 0"
  by (simp_all add: conserved_def initial_state_def)

text \<open>
  Claim C1, as the code has it. After any number of input frames that the loop gets
  through (across ordinary flushes, keep-alive splices and the two transition paths),
  \<^verbatim>\<open>samples_written + samples_discarded + output_buffer_index\<close> equals
  \<^verbatim>\<open>num_samples\<close>, the number of frames read. The final drain adds the
  \<^verbatim>\<open>output_buffer_index\<close> frames still in the ring to one of the two totals and leaves
  the index as it is: after it, \<^verbatim>\<open>samples_written + samples_discarded\<close> is the number
  of input frames.
\<close>

theorem sample_conservation:
  assumes "run_frames cfg analysis n (initial_state ring) = Inr s"
  shows "samples_written s + samples_discarded s + output_buffer_index s = num_samples s \<and>
         num_samples s = int n \<and>
         samples_written (final_drain cfg s) + samples_discarded (final_drain cfg s) = int n \<and>
         output_buffer_index (final_drain cfg s) = output_buffer_index s \<and>
         num_samples (final_drain cfg s) = num_samples s"
proof -
  from run_frames_conserved [OF initial_conserved(1) assms]
  have c: "conserved s" and n: "num_samples s = int n" by (simp_all add: initial_conserved(2))
  have "output_buffer_index (final_drain cfg s) = output_buffer_index s"
    "num_samples (final_drain cfg s) = num_samples s"
    by (simp_all add: final_drain_def Let_def)
  with c n final_drain_total [OF c, of cfg] show ?thesis by (simp add: conserved_def)
qed



lemma three_frames_run:
  "run_frames options_11025 (\<lambda>n. 0) 3 (initial_state (replicate 25 0)) = Inr three_frames"
  by (simp add: numeral_3_eq_3 process_frame_def flush_def options_11025_def initial_state_def
      level_buff_len_def output_buff_len_def step_samples_def signed_divide_int_def Let_def
      three_frames_def)

theorem sample_conservation_witness:
  "run_frames options_11025 (\<lambda>n. 0) 3 (initial_state (replicate 25 0)) = Inr three_frames \<and>
   samples_written three_frames + samples_discarded three_frames + output_buffer_index three_frames = 3 \<and>
   samples_written (final_drain options_11025 three_frames)
     + samples_discarded (final_drain options_11025 three_frames) = 3"
  using sample_conservation [OF three_frames_run] three_frames_run by simp

text \<open>
  Claim C1 as stated fails for the last of the paths it lists: the final drain does not
  reset \<^verbatim>\<open>output_buffer_index\<close>, so after it the sum of the three exceeds
  \<^verbatim>\<open>num_samples\<close> by the frames just drained (here 6 against 3).
\<close>

theorem drain_leaves_index:
  "run_frames options_11025 (\<lambda>n. 0) 3 (initial_state (replicate 25 0)) = Inr three_frames \<and>
   samples_written (final_drain options_11025 three_frames)
     + samples_discarded (final_drain options_11025 three_frames)
     + output_buffer_index (final_drain options_11025 three_frames)
     \<noteq> num_samples (final_drain options_11025 three_frames)"
  using three_frames_run
  by (simp add: final_drain_def three_frames_def initial_state_def options_11025_def)


subsection \<open>Window analyser: the result record\<close>

lemma spare_untouched: "spare (store_result r a b c d e f g) = spare r"
  by (simp add: store_result_def)

text \<open>
  Claim C9 against the code: \<^verbatim>\<open>analyze_window\<close> assigns seven of the eight fields of
  its uninitialised \<^verbatim>\<open>result\<close> and never \<^verbatim>\<open>spare\<close>, so the record it writes carries
  in its last byte whatever the struct held on entry, here \<open>0xAA\<close>.
\<close>

theorem spare_byte_is_not_written:
  "dump_result (store_result stack_garbage 12 40 90 130 128 255 6)
     = [12, 6, 40, 90, 130, 128, 255, 0xAA]"
  by (simp add: dump_result_def store_result_def stack_garbage_def)

subsection \<open>Window analyser\<close>

lemma store_trigger_Some:
  assumes "cycles st < 128" "length (trigger_points st) = 128"
  shows "store_trigger pos st = Some (st\<lparr>trigger_points := (trigger_points st)[cycles st := pos],
                                         cycles := cycles st + 1\<rparr>)"
  using assms by (simp add: store_trigger_def)

lemma scan_step_in_bounds:
  assumes "cycles st \<le> 127" "length (trigger_points st) = 128"
  shows "\<exists>st'. scan_step ops peak trough square_root cube_root i level st = Some st' \<and>
           cycles st' \<le> 127 \<and> length (trigger_points st') = 128"
proof -
  define zone :: nat where "zone = (if fless ops (fdiv ops peak cube_root) level then 2
                  else if fless ops (fmul ops trough cube_root) level then 1 else 0)"
  define st1 where "st1 = st\<lparr>zones := (zones st)[zone := zones st ! zone + 1]\<rparr>"
  have b: "cycles st1 \<le> 127" "length (trigger_points st1) = 128"
    using assms by (simp_all add: st1_def)
  show ?thesis
  proof (cases "odd (cycles st1)")
    case True
    have lt: "cycles st1 < 128" using b(1) by simp
    show ?thesis
      using True b store_trigger_Some [OF lt b(2)]
      unfolding scan_step_def Let_def zone_def [symmetric] st1_def [symmetric]
      by auto
  next
    case False
    then have "cycles st1 \<noteq> 127" by auto
    then have lt: "cycles st1 < 127" using b(1) by simp
    then have lt': "cycles st1 < 128" by simp
    show ?thesis
      using False b lt store_trigger_Some [OF lt' b(2)]
      unfolding scan_step_def Let_def zone_def [symmetric] st1_def [symmetric]
      by auto
  qed
qed

lemma scan_loop_in_bounds:
  assumes "cycles st \<le> 127" "length (trigger_points st) = 128"
  shows "\<exists>st'. scan_loop ops peak trough square_root cube_root i levels st = Some st' \<and>
           cycles st' \<le> 127 \<and> length (trigger_points st') = 128"
  using assms
proof (induction levels arbitrary: i st)
  case Nil
  then show ?case by simp
next
  case (Cons level levels)
  from scan_step_in_bounds [OF Cons.prems, of ops peak trough square_root cube_root i level]
  obtain st1 where s: "scan_step ops peak trough square_root cube_root i level st = Some st1"
    and b: "cycles st1 \<le> 127" "length (trigger_points st1) = 128" by blast
  from Cons.IH [OF b, of "i + 1"] s show ?case by simp
qed

text \<open>
  Claim C10. For every level window and whatever the comparisons and thresholds evaluate
  to, the scan completes without a store to \<^verbatim>\<open>trigger_points\<close> at an index of
  \<^verbatim>\<open>MAX_CYCLES\<close> = 128 or more, and \<^verbatim>\<open>cycles\<close> is at most 127 at its end: the
  trough search stores only at even counts, and the peak search, which alone can reach 128,
  drops the count back by 2 at once.
\<close>

theorem trigger_scan_in_bounds:
  assumes "levels \<noteq> []" and "length triggers = MAX_CYCLES"
  shows "\<exists>st. trigger_scan ops triggers levels = Some st \<and> cycles st \<le> 127 \<and>
           length (trigger_points st) = MAX_CYCLES"
proof -
  obtain l0 ls where l: "levels = l0 # ls" using assms(1) by (cases levels) auto
  show ?thesis
    unfolding trigger_scan_def l
    by (simp add: split_beta Let_def) (rule scan_loop_in_bounds; simp add: assms(2))
qed

lemma attack_intervals_counts:
  "fst (attack_intervals tp n) = int (length (filter odd [2 ..< n])) \<and>
   fst (snd (snd (attack_intervals tp n))) = int (length (filter even [2 ..< n]))"
proof -
  have "fst (foldl (\<lambda>(attack_count, attack_time, decay_count, decay_time) i.
              if odd i
              then (attack_count + 1, attack_time + (tp ! i - tp ! (i - 1)),
                    decay_count, decay_time)
              else (attack_count, attack_time,
                    decay_count + 1, decay_time + (tp ! i - tp ! (i - 1)))) acc xs)
          = fst acc + int (length (filter odd xs)) \<and>
        fst (snd (snd (foldl (\<lambda>(attack_count, attack_time, decay_count, decay_time) i.
              if odd i
              then (attack_count + 1, attack_time + (tp ! i - tp ! (i - 1)),
                    decay_count, decay_time)
              else (attack_count, attack_time,
                    decay_count + 1, decay_time + (tp ! i - tp ! (i - 1)))) acc xs)))
          = fst (snd (snd acc)) + int (length (filter even xs))" for acc xs
    by (induction xs arbitrary: acc) (auto simp: split_beta)
  from this [of "(0, 0, 0, 0)" "[2 ..< n]"] show ?thesis
    by (simp add: attack_intervals_def)
qed

lemma attack_counts_positive:
  assumes "4 \<le> n"
  shows "0 < fst (attack_intervals tp n)" "0 < fst (snd (snd (attack_intervals tp n)))"
proof -
  have "3 \<in> set (filter odd [2 ..< n])" "2 \<in> set (filter even [2 ..< n])"
    using assms by simp_all
  then have "0 < length (filter odd [2 ..< n])" "0 < length (filter even [2 ..< n])"
    by (metis length_pos_if_in_set)+
  then show "0 < fst (attack_intervals tp n)" "0 < fst (snd (snd (attack_intervals tp n)))"
    using attack_intervals_counts [of tp n] by simp_all
qed

text \<open>
  Claim C7. For every level window that \<^verbatim>\<open>analyze_window\<close> scans, when the cycle count
  is 4 or more the interval loop over the trigger indices from 2 on counts at least one
  decay (index 2) and one attack (index 3), so the branch that ends the program is not
  taken; below 4 the block is skipped.
\<close>

theorem attack_abort_unreachable:
  assumes "trigger_scan ops triggers levels = Some st"
  shows "(4 \<le> cycles st \<longrightarrow>
            0 < fst (attack_intervals (trigger_points st) (cycles st)) \<and>
            0 < fst (snd (snd (attack_intervals (trigger_points st) (cycles st))))) \<and>
         attack_stage (trigger_points st) (cycles st) \<noteq> Inl Attack_abort"
  using attack_counts_positive [of "cycles st" "trigger_points st"]
  by (auto simp: attack_stage_def split_beta)


lemma sqrt_64: "sqrt 64 = 8"
  using real_sqrt_abs [of 8] by simp

lemma cbrt_64: "root 3 64 = 4"
  using real_root_pos2 [of 3 4] by simp



lemma nat_4_eq_4: "(4::nat) = Suc (Suc (Suc (Suc 0)))"
  by simp

lemma example_scan_run: "trigger_scan real_ops (replicate 128 0) example_levels = Some example_scan"
  apply (simp add: trigger_scan_def trough_and_peak_def real_ops_def sqrt_64 cbrt_64 scan_step_def
      store_trigger_def Let_def example_levels_def example_scan_def)
  apply (simp only: numeral_2_eq_2 numeral_3_eq_3 nat_4_eq_4)
  done

theorem attack_abort_unreachable_witness:
  "trigger_scan real_ops (replicate 128 0) example_levels = Some example_scan \<and>
   cycles example_scan = 5 \<and>
   0 < fst (attack_intervals (trigger_points example_scan) 5) \<and>
   0 < fst (snd (snd (attack_intervals (trigger_points example_scan) 5))) \<and>
   attack_stage (trigger_points example_scan) 5 \<noteq> Inl Attack_abort"
  using attack_abort_unreachable [OF example_scan_run] example_scan_run
  by (simp add: example_scan_def)

lemma example_attack: "attack_stage (trigger_points example_scan) (cycles example_scan) = Inr (Some (1, 2, 2, 0))"
  by (simp add: attack_stage_def attack_intervals_def example_scan_def upt_rec)

theorem trigger_scan_in_bounds_witness:
  "\<exists>st. trigger_scan real_ops (replicate 128 0) (concat (replicate 200 [1, 64])) = Some st \<and>
      cycles st \<le> 127 \<and> length (trigger_points st) = 128"
  using trigger_scan_in_bounds [of "concat (replicate 200 [1, 64])" "replicate 128 0" real_ops]
  by (simp add: numeral_eq_Suc)

subsection \<open>Tensor container\<close>

lemma from_le32_le32: "from_le32 (le32 w) = w"
  unfolding from_le32_def le32_def
proof (rule bit_word_eqI)
  fix n
  assume "n < LENGTH(32)"
  then have n: "n < 32" by simp
  consider "n < 8" | "8 \<le> n" "n < 16" | "16 \<le> n" "n < 24" | "24 \<le> n"
    by linarith
  then show "bit (ucast ([ucast w, ucast (drop_bit 8 w), ucast (drop_bit 16 w), ucast (drop_bit 24 w) :: byte] ! 0)
                 OR push_bit 8 (ucast ([ucast w, ucast (drop_bit 8 w), ucast (drop_bit 16 w), ucast (drop_bit 24 w) :: byte] ! 1))
                 OR push_bit 16 (ucast ([ucast w, ucast (drop_bit 8 w), ucast (drop_bit 16 w), ucast (drop_bit 24 w) :: byte] ! 2))
                 OR push_bit 24 (ucast ([ucast w, ucast (drop_bit 8 w), ucast (drop_bit 16 w), ucast (drop_bit 24 w) :: byte] ! 3)) :: u32) n
             = bit w n"
    using n by cases (auto simp: bit_simps)
qed

lemma length_le32 [simp]: "length (le32 w) = 4"
  by (simp add: le32_def)

lemma bytes_header_bytes:
  "length (dimensions h) = 4 \<Longrightarrow> bytes_header (header_bytes h) = h"
  by (simp add: bytes_header_def header_bytes_def from_le32_le32)

lemma sub_add_checksum: "sub_checksum c xs = c - add_checksum 0 xs"
proof -
  have "foldl (\<lambda>c b. c - ucast b) c xs = c - foldl (\<lambda>c (b::byte). c + (ucast b :: u32)) d xs + d" for d
    by (induction xs arbitrary: c d) (simp_all add: algebra_simps)
  from this [of 0] show ?thesis by (simp add: sub_checksum_def add_checksum_def)
qed

lemma read_bytes_eq:
  "index s \<le> size_s s \<Longrightarrow> size_s s \<le> length (buffer s) \<Longrightarrow>
   read_bytes k s = (take k (drop (index s) (take (size_s s) (buffer s))),
                     s\<lparr>index := index s + min k (size_s s - index s)\<rparr>)"
proof (induction k arbitrary: s)
  case 0
  then show ?case by simp
next
  case (Suc k)
  show ?case
  proof (cases "index s = size_s s")
    case True
    then show ?thesis by (simp add: read_buff_def)
  next
    case False
    then have lt: "index s < size_s s" using Suc.prems by simp
    let ?s1 = "s\<lparr>index := index s + 1\<rparr>"
    have "index ?s1 \<le> size_s ?s1" "size_s ?s1 \<le> length (buffer ?s1)" using lt Suc.prems by simp_all
    note IH = Suc.IH [OF this]
    have d: "drop (index s) (take (size_s s) (buffer s))
               = buffer s ! index s # drop (Suc (index s)) (take (size_s s) (buffer s))"
      using lt Suc.prems by (simp add: Cons_nth_drop_Suc [symmetric])
    show ?thesis using False lt IH d by (simp add: read_buff_def min_def)
  qed
qed

lemma write_no_wrap:
  "index w + length out \<le> size_s w \<Longrightarrow> size_s w \<le> length (buffer w) \<Longrightarrow>
   foldl (\<lambda>w b. write_buff b w) w out =
     w\<lparr>buffer := take (index w) (buffer w) @ out @ drop (index w + length out) (buffer w),
       index := index w + length out\<rparr>"
proof (induction out arbitrary: w)
  case Nil
  then show ?case by simp
next
  case (Cons b out)
  let ?w1 = "write_buff b w"
  have w1: "?w1 = w\<lparr>buffer := (buffer w)[index w := b], index := index w + 1\<rparr>"
    using Cons.prems by (simp add: write_buff_def Let_def)
  have "index ?w1 + length out \<le> size_s ?w1" "size_s ?w1 \<le> length (buffer ?w1)"
    using Cons.prems by (simp_all add: w1)
  note IH = Cons.IH [OF this]
  have i: "index w < length (buffer w)" using Cons.prems by simp
  have "take (Suc (index w)) ((buffer w)[index w := b]) = take (index w) (buffer w) @ [b]"
    using i by (simp add: take_Suc_conv_app_nth)
  then show ?case using IH i by (simp add: w1)
qed

lemma write_wrap_once:
  assumes "index w = 0" "size_s w = length (buffer w)" "length xs = size_s w" "0 < size_s w"
  shows "foldl (\<lambda>w b. write_buff b w) w (xs @ [y]) =
           w\<lparr>buffer := xs[0 := y], index := 1, wrapped := wrapped w + 1\<rparr>"
proof -
  have "foldl (\<lambda>w b. write_buff b w) w xs = w\<lparr>buffer := xs, index := length xs\<rparr>"
    using write_no_wrap [of w xs] assms by simp
  then show ?thesis using assms by (simp add: write_buff_def Let_def)
qed

lemma compress_trial_fit:
  assumes r: "size_s r = sizeof_tensor" "buffer r = T" "length T = sizeof_tensor"
    and w: "size_s w = sizeof_tensor" "length (buffer w) = sizeof_tensor"
    and c: "lzw_compress codec mb T = (rc, consumed, out)" "length out \<le> sizeof_tensor"
  shows "\<exists>r' w'. compress_trial codec mb r w = (rc, r', w') \<and>
           size_s r' = sizeof_tensor \<and> buffer r' = T \<and>
           size_s w' = sizeof_tensor \<and> length (buffer w') = sizeof_tensor \<and>
           index w' = length out \<and> take (length out) (buffer w') = out \<and> wrapped w' = wrapped w"
proof -
  let ?r0 = "r\<lparr>index := 0\<rparr>" and ?w0 = "w\<lparr>index := 0\<rparr>"
  have rb: "read_bytes k ?r0 = (take k T, ?r0\<lparr>index := min k sizeof_tensor\<rparr>)" for k
    using read_bytes_eq [of ?r0 k] r by simp
  have wb: "foldl (\<lambda>w b. write_buff b w) ?w0 out =
              ?w0\<lparr>buffer := out @ drop (length out) (buffer w), index := length out\<rparr>"
    using write_no_wrap [of ?w0 out] w c(2) by simp
  show ?thesis
    using r w c by (simp add: compress_trial_def stream_call_def rb wb)
qed

lemma lzw_invertsD:
  assumes "lzw_inverts codec T" "m \<in> {9 ..< 17}" "lzw_compress codec m T = (rc, consumed, out)"
  shows "rc = 0" "lzw_decompress codec out = (0, length out, T)"
proof -
  from assms(1) have "\<forall>maxbits \<in> {9 ..< 17}. case lzw_compress codec maxbits T of
          (rc, consumed, out) \<Rightarrow> rc = 0 \<and> lzw_decompress codec out = (0, length out, T)"
    unfolding lzw_inverts_def .
  from bspec [OF this assms(2)] show "rc = 0" "lzw_decompress codec out = (0, length out, T)"
    using assms(3) by simp_all
qed

lemma trials_fitD:
  assumes "trials_fit codec T" "m \<in> {9 ..< 17}" "lzw_compress codec m T = (rc, consumed, out)"
  shows "length out \<le> sizeof_tensor"
proof -
  from assms(1) have "\<forall>maxbits \<in> {9 ..< 17}.
      length (snd (snd (lzw_compress codec maxbits T))) \<le> sizeof_tensor"
    unfolding trials_fit_def .
  from bspec [OF this assms(2)] show ?thesis using assms(3) by simp
qed



lemma trials_fit_run:
  assumes "length T = sizeof_tensor" "lzw_inverts codec T" "trials_fit codec T"
    and "set ms \<subseteq> {9 ..< 17}" "trial_state_ok T st"
  shows "\<exists>st'. trials codec ms st = Inr st' \<and> trial_state_ok T st' \<and>
           (fst (snd (snd st)) \<noteq> None \<or> ms \<noteq> [] \<longrightarrow> fst (snd (snd st')) \<noteq> None)"
  using assms(4-)
proof (induction ms arbitrary: st)
  case Nil
  then show ?case by simp
next
  case (Cons m ms)
  obtain r w best smallest where st: "st = (r, w, best, smallest)" by (cases st) auto
  obtain rc consumed out where c: "lzw_compress codec m T = (rc, consumed, out)"
    by (cases "lzw_compress codec m T") auto
  have m: "m \<in> {9 ..< 17}" using Cons.prems(1) by simp
  have rc: "rc = 0" using lzw_invertsD(1) [OF assms(2) m c] .
  have fit: "length out \<le> sizeof_tensor" using trials_fitD [OF assms(3) m c] .
  from Cons.prems(2) st have f: "fit_state T r w"
    and bs: "case best of None \<Rightarrow> smallest > sizeof_tensor | Some b \<Rightarrow> b \<in> {9 ..< 17}"
    by (simp_all add: trial_state_ok_def)
  from f have fs: "size_s r = sizeof_tensor" "buffer r = T"
    "size_s w = sizeof_tensor" "length (buffer w) = sizeof_tensor" "wrapped w = 0"
    by (simp_all add: fit_state_def)
  from compress_trial_fit [OF fs(1,2) assms(1) fs(3,4) c fit]
  obtain r' w' where t: "compress_trial codec m r w = (rc, r', w')"
    and f': "fit_state T r' w'" and i: "index w' = length out"
    using fs(5) by (auto simp: fit_state_def)
  define st1 where "st1 = (if index w' < smallest then (r', w', Some m, index w')
                            else (r', w', best, smallest))"
  have step: "trials codec (m # ms) st = trials codec ms st1"
    using t rc by (simp add: st st1_def)
  have ok1: "trial_state_ok T st1"
    using f' bs m by (simp add: st1_def trial_state_ok_def)
  have some1: "fst (snd (snd st1)) \<noteq> None"
  proof (cases "index w' < smallest")
    case True
    then show ?thesis by (simp add: st1_def)
  next
    case False
    then have "best \<noteq> None" using bs i fit by (auto split: option.splits)
    then show ?thesis using False by (simp add: st1_def)
  qed
  have ms: "set ms \<subseteq> {9 ..< 17}" using Cons.prems(1) by simp
  from Cons.IH [OF ms ok1] some1 step show ?case by auto
qed

lemma sizeof_tensor_eq: "sizeof_tensor = 294912"
  by (simp add: sizeof_tensor_def)

lemma length_header_bytes:
  "length (dimensions h) = 4 \<Longrightarrow> length (header_bytes h) = 12"
  by (simp add: header_bytes_def)

lemma load_stored:
  assumes "length old = sizeof_tensor" "length T = sizeof_tensor"
    and "lzw_decompress codec out = (0, length out, T)"
  shows "local_tensor_file codec old
           (header_bytes \<lparr>version = TENSOR_VERSION, checksum = add_checksum 0 T,
                          dimensions = tensor_dimensions\<rparr> @ out) = (1, T)"
proof -
  let ?h = "\<lparr>version = TENSOR_VERSION, checksum = add_checksum 0 T, dimensions = tensor_dimensions\<rparr>"
  let ?r = "\<lparr>size_s = length out, index = 0, wrapped = 0, buffer = out\<rparr>"
  let ?w = "\<lparr>size_s = sizeof_tensor, index = 0, wrapped = 0, buffer = old\<rparr>"
  have d: "length (dimensions ?h) = 4" by (simp add: tensor_dimensions_def)
  have l: "length (header_bytes ?h) = 12" using length_header_bytes [OF d] .
  have rb: "read_bytes k ?r = (take k out, ?r\<lparr>index := min k (length out)\<rparr>)" for k
    using read_bytes_eq [of ?r k] by simp
  have wb: "foldl (\<lambda>w b. write_buff b w) ?w T = ?w\<lparr>buffer := T, index := sizeof_tensor\<rparr>"
    using write_no_wrap [of ?w T] assms by simp
  have sc: "stream_call (lzw_decompress codec) ?r ?w =
              (0, ?r\<lparr>index := length out\<rparr>, ?w\<lparr>buffer := T, index := sizeof_tensor\<rparr>)"
    using assms(3) by (simp add: stream_call_def rb wb)
  show ?thesis
    using l bytes_header_bytes [OF d] sc
    by (simp add: local_tensor_file_def sizeof_header_def Let_def sub_add_checksum)
qed

text \<open>
  Claim C2, as the code has it. For every tensor of \<^verbatim>\<open>sizeof (tensor_array)\<close> bytes
  that the codec pair compresses and decompresses back at each \<^verbatim>\<open>maxbits\<close> from 9 to
  16, and whose compressed form fits the scratch buffer of that same size at each of them,
  \<^verbatim>\<open>write_tensor_file\<close> produces a file from which \<^verbatim>\<open>local_tensor_file\<close> returns 1
  (version, dimensions, exact consumption, exact fill and checksum all pass) and the
  tensor itself.
\<close>

theorem tensor_round_trip:
  assumes "length tensor = sizeof_tensor" and "length scratch = sizeof_tensor"
    and "length old = sizeof_tensor"
    and "lzw_inverts codec tensor" and "trials_fit codec tensor"
  shows "\<exists>file. write_tensor_file codec scratch tensor = Inr file \<and>
           local_tensor_file codec old file = (1, tensor)"
proof -
  have f0: "fit_state tensor (tensor_reader tensor) (scratch_writer scratch)"
    using assms by (simp add: fit_state_def tensor_reader_def scratch_writer_def)
  have "set [9 ..< 17] \<subseteq> {9 ..< 17::nat}" by simp
  moreover have "trial_state_ok tensor (tensor_reader tensor, scratch_writer scratch, None, sizeof_tensor + 1)"
    using f0 by (simp add: trial_state_ok_def)
  ultimately obtain st' where
    t': "trials codec [9 ..< 17] (tensor_reader tensor, scratch_writer scratch, None, sizeof_tensor + 1)
          = Inr st'"
    and ok: "trial_state_ok tensor st'" and b': "fst (snd (snd st')) \<noteq> None"
    using trials_fit_run [OF assms(1,4,5), of "[9 ..< 17]"
        "(tensor_reader tensor, scratch_writer scratch, None, sizeof_tensor + 1)"]
    by auto
  obtain r w best smallest where st': "st' = (r, w, best, smallest)" by (cases st') auto
  have t: "trials codec [9 ..< 17] (tensor_reader tensor, scratch_writer scratch, None, sizeof_tensor + 1)
          = Inr (r, w, best, smallest)" using t' st' by simp
  have f: "fit_state tensor r w" and b: "best \<noteq> None"
    and bb: "case best of None \<Rightarrow> smallest > sizeof_tensor | Some b \<Rightarrow> b \<in> {9 ..< 17}"
    using ok b' st' by (simp_all add: trial_state_ok_def)
  from b bb obtain mb where mb: "best = Some mb" "mb \<in> {9 ..< 17}" by (cases best) auto
  obtain rc consumed out where c: "lzw_compress codec mb tensor = (rc, consumed, out)"
    by (cases "lzw_compress codec mb tensor") auto
  have rc: "rc = 0" and dec: "lzw_decompress codec out = (0, length out, tensor)"
    using lzw_invertsD [OF assms(4) mb(2) c] by simp_all
  have fit: "length out \<le> sizeof_tensor" using trials_fitD [OF assms(5) mb(2) c] .
  from f have fs: "size_s r = sizeof_tensor" "buffer r = tensor"
    "size_s w = sizeof_tensor" "length (buffer w) = sizeof_tensor"
    by (simp_all add: fit_state_def)
  from compress_trial_fit [OF fs(1,2) assms(1) fs(3,4) c fit]
  obtain r' w' where ct: "compress_trial codec mb r w = (rc, r', w')"
    and i: "index w' = length out" and tk: "take (length out) (buffer w') = out"
    by auto
  have "write_tensor_file codec scratch tensor =
          Inr (header_bytes \<lparr>version = TENSOR_VERSION, checksum = add_checksum 0 tensor,
                             dimensions = tensor_dimensions\<rparr> @ out)"
    using t mb(1) ct rc i tk by (simp add: write_tensor_file_def)
  with load_stored [OF assms(3,1) dec] show ?thesis by simp
qed



lemma run_compress_music:
  "run_compress music_tensor = (0, sizeof_tensor, 1 # le32 (of_nat sizeof_tensor) @ [99])"
  by (simp add: run_compress_def music_tensor_def sizeof_tensor_eq)

lemma marker_decompress_run:
  "marker_decompress (1 # le32 (of_nat sizeof_tensor) @ [99]) = (0, 6, music_tensor)"
  by (simp add: marker_decompress_def from_le32_le32 music_tensor_def sizeof_tensor_eq nth_append)

lemma marker_decompress_stored:
  "marker_decompress (0 # bs) = (0, Suc (length bs), bs)"
  by (simp add: marker_decompress_def)

lemma run_codec_inverts: "lzw_inverts run_codec music_tensor"
  by (simp add: lzw_inverts_def run_codec_def run_compress_music marker_decompress_run)

lemma run_codec_fits: "trials_fit run_codec music_tensor"
  by (simp add: trials_fit_def run_codec_def run_compress_music sizeof_tensor_eq)

theorem tensor_round_trip_witness:
  "\<exists>file. write_tensor_file run_codec zero_bytes music_tensor = Inr file \<and>
      local_tensor_file run_codec zero_bytes file = (1, music_tensor)"
  using tensor_round_trip [of music_tensor zero_bytes zero_bytes run_codec]
    run_codec_inverts run_codec_fits
  by (simp add: music_tensor_def zero_bytes_def)

lemma stored_codec_inverts: "lzw_inverts stored_codec T"
  by (simp add: lzw_inverts_def stored_codec_def stored_compress_def marker_decompress_stored)

lemma mixed_codec_inverts: "lzw_inverts mixed_codec music_tensor"
  by (simp add: lzw_inverts_def mixed_codec_def stored_compress_def marker_decompress_stored
      run_compress_music marker_decompress_run)

text \<open>A trial whose output is one byte longer than the scratch buffer.\<close>

lemma stored_trial:
  assumes "size_s r = sizeof_tensor" "buffer r = T" "length T = sizeof_tensor"
    and "size_s w = sizeof_tensor" "length (buffer w) = sizeof_tensor"
    and "lzw_compress codec mb T = stored_compress T"
  shows "compress_trial codec mb r w =
           (0, r\<lparr>index := sizeof_tensor\<rparr>,
            w\<lparr>buffer := (0 # butlast T)[0 := last T], index := 1, wrapped := wrapped w + 1\<rparr>)"
proof -
  let ?r0 = "r\<lparr>index := 0\<rparr>" and ?w0 = "w\<lparr>index := 0\<rparr>"
  have T: "T \<noteq> []" using assms(3) by (auto simp: sizeof_tensor_eq)
  have rb: "read_bytes k ?r0 = (take k T, ?r0\<lparr>index := min k sizeof_tensor\<rparr>)" for k
    using read_bytes_eq [of ?r0 k] assms by simp
  have "0 # T = (0 # butlast T) @ [last T]" using T by simp
  moreover have "foldl (\<lambda>w b. write_buff b w) ?w0 ((0 # butlast T) @ [last T]) =
          ?w0\<lparr>buffer := (0 # butlast T)[0 := last T], index := 1, wrapped := wrapped ?w0 + 1\<rparr>"
    using assms T by (intro write_wrap_once) (simp_all add: sizeof_tensor_eq)
  ultimately have wb: "foldl (\<lambda>w b. write_buff b w) ?w0 (0 # T) =
          ?w0\<lparr>buffer := (0 # butlast T)[0 := last T], index := 1, wrapped := wrapped ?w0 + 1\<rparr>"
    by simp
  show ?thesis
    using assms(1,3,6) wb
    by (simp add: compress_trial_def stream_call_def rb stored_compress_def del: foldl_Cons)
qed

lemma run_trial:
  assumes "size_s r = sizeof_tensor" "buffer r = music_tensor"
    and "size_s w = sizeof_tensor" "length (buffer w) = sizeof_tensor"
    and "lzw_compress codec mb music_tensor = run_compress music_tensor"
  shows "compress_trial codec mb r w =
           (0, r\<lparr>index := sizeof_tensor\<rparr>,
            w\<lparr>buffer := (1 # le32 (of_nat sizeof_tensor) @ [99]) @ drop 6 (buffer w), index := 6\<rparr>)"
proof -
  let ?r0 = "r\<lparr>index := 0\<rparr>" and ?w0 = "w\<lparr>index := 0\<rparr>"
  have l: "length music_tensor = sizeof_tensor" by (simp add: music_tensor_def)
  have rb: "read_bytes k ?r0 = (take k music_tensor, ?r0\<lparr>index := min k sizeof_tensor\<rparr>)" for k
    using read_bytes_eq [of ?r0 k] assms l by simp
  have wb: "foldl (\<lambda>w b. write_buff b w) ?w0 (1 # le32 (of_nat sizeof_tensor) @ [99]) =
          ?w0\<lparr>buffer := (1 # le32 (of_nat sizeof_tensor) @ [99]) @ drop 6 (buffer w), index := 6\<rparr>"
    using write_no_wrap [of ?w0 "1 # le32 (of_nat sizeof_tensor) @ [99]"] assms
    by (simp add: sizeof_tensor_eq)
  show ?thesis
    using assms(1,5) l wb
    by (simp add: compress_trial_def stream_call_def rb run_compress_music del: foldl_Cons)
qed


lemma upt_9_17: "[9 ..< 17] = [9, 10, 11, 12, 13, 14, 15, 16 :: nat]"
  by (simp add: upt_rec)

lemma last_music: "last music_tensor = 99" "length music_tensor = sizeof_tensor"
  by (simp_all add: music_tensor_def sizeof_tensor_eq)

lemma stored_codec_trials:
  "trials stored_codec [9 ..< 17]
     (tensor_reader music_tensor, scratch_writer zero_bytes, None, sizeof_tensor + 1) =
   Inr ((tensor_reader music_tensor)\<lparr>index := sizeof_tensor\<rparr>,
        (scratch_writer zero_bytes)\<lparr>buffer := (0 # butlast music_tensor)[0 := 99], index := 1, wrapped := 8\<rparr>,
        Some 9, 1)"
proof -
  have c: "lzw_compress stored_codec mb music_tensor = stored_compress music_tensor" for mb
    by (simp add: stored_codec_def)
  note st = stored_trial [OF _ _ last_music(2) _ _ c]
  show ?thesis
    by (simp add: upt_9_17 st tensor_reader_def scratch_writer_def zero_bytes_def last_music sizeof_tensor_eq)
qed

lemma stored_codec_writes:
  "write_tensor_file stored_codec zero_bytes music_tensor = Inr stored_file"
proof -
  have c: "lzw_compress stored_codec mb music_tensor = stored_compress music_tensor" for mb
    by (simp add: stored_codec_def)
  note st = stored_trial [OF _ _ last_music(2) _ _ c]
  have final: "compress_trial stored_codec 9 ((tensor_reader music_tensor)\<lparr>index := sizeof_tensor\<rparr>)
        ((scratch_writer zero_bytes)\<lparr>buffer := (0 # butlast music_tensor)[0 := 99], index := 1, wrapped := 8\<rparr>)
      = (0, (tensor_reader music_tensor)\<lparr>index := sizeof_tensor\<rparr>,
         (scratch_writer zero_bytes)\<lparr>buffer := (0 # butlast music_tensor)[0 := 99], index := 1, wrapped := 9\<rparr>)"
    by (simp add: st tensor_reader_def scratch_writer_def zero_bytes_def last_music sizeof_tensor_eq)
  show ?thesis
    unfolding write_tensor_file_def Let_def stored_codec_trials sum.case prod.case option.case final
    by (simp add: stored_file_def)
qed

lemma load_stored_file:
  assumes "lzw_decompress codec = marker_decompress"
  shows "local_tensor_file codec zero_bytes stored_file = (0, zero_bytes)"
proof -
  let ?h = "\<lparr>version = TENSOR_VERSION, checksum = add_checksum 0 music_tensor,
              dimensions = tensor_dimensions\<rparr>"
  let ?r = "\<lparr>size_s = 1, index = 0, wrapped = 0, buffer = [99]\<rparr>"
  have d: "length (dimensions ?h) = 4" by (simp add: tensor_dimensions_def)
  have l: "length (header_bytes ?h) = 12" using length_header_bytes [OF d] .
  show ?thesis
    using l bytes_header_bytes [OF d] assms
    by (simp add: local_tensor_file_def stored_file_def sizeof_header_def Let_def stream_call_def
        read_buff_def marker_decompress_def)
qed

text \<open>
  Claim C2 as stated fails: a codec pair that inverts correctly but whose output is one
  byte longer than its input overruns the scratch buffer at every \<^verbatim>\<open>maxbits\<close>; the
  writer wraps, the file keeps one byte of payload, and loading it returns 0.
\<close>

theorem round_trip_fails_on_overrun:
  "lzw_inverts stored_codec music_tensor \<and>
   write_tensor_file stored_codec zero_bytes music_tensor = Inr stored_file \<and>
   local_tensor_file stored_codec zero_bytes stored_file = (0, zero_bytes)"
  using stored_codec_inverts stored_codec_writes load_stored_file [of stored_codec]
  by (simp add: stored_codec_def)

lemma mixed_codec_trials:
  "trials mixed_codec [9 ..< 17]
     (tensor_reader music_tensor, scratch_writer zero_bytes, None, sizeof_tensor + 1) =
   Inr ((tensor_reader music_tensor)\<lparr>index := sizeof_tensor\<rparr>,
        (scratch_writer zero_bytes)\<lparr>buffer := (1 # le32 (of_nat sizeof_tensor) @ [99]) @ drop 6 ((0 # butlast music_tensor)[0 := 99]),
                                     index := 6, wrapped := 1\<rparr>,
        Some 9, 1)"
proof -
  have c9: "lzw_compress mixed_codec 9 music_tensor = stored_compress music_tensor"
    by (simp add: mixed_codec_def)
  have c: "mb \<noteq> 9 \<Longrightarrow> lzw_compress mixed_codec mb music_tensor = run_compress music_tensor" for mb
    by (simp add: mixed_codec_def)
  note st = stored_trial [OF _ _ last_music(2) _ _ c9]
  note rt = run_trial [OF _ _ _ _ c]
  show ?thesis
    by (simp add: upt_9_17 st rt tensor_reader_def scratch_writer_def zero_bytes_def last_music sizeof_tensor_eq)
qed

text \<open>
  While no trial overruns the scratch buffer the loop does what is expected of it: it ends
  with the first \<^verbatim>\<open>maxbits\<close> whose output is smallest.
\<close>

lemma trials_fit_fold:
  assumes "length T = sizeof_tensor" "lzw_inverts codec T" "trials_fit codec T"
    and "set ms \<subseteq> {9 ..< 17}" "fit_state T r w"
  shows "\<exists>r' w'. trials codec ms (r, w, best, smallest) =
           Inr (r', w', foldl (pick (\<lambda>m. length (snd (snd (lzw_compress codec m T))))) (best, smallest) ms) \<and>
           fit_state T r' w'"
  using assms(4-)
proof (induction ms arbitrary: r w best smallest)
  case Nil
  then show ?case by simp
next
  case (Cons m ms)
  obtain rc consumed out where c: "lzw_compress codec m T = (rc, consumed, out)"
    by (cases "lzw_compress codec m T") auto
  have m: "m \<in> {9 ..< 17}" using Cons.prems(1) by simp
  have rc: "rc = 0" using lzw_invertsD(1) [OF assms(2) m c] .
  have fit: "length out \<le> sizeof_tensor" using trials_fitD [OF assms(3) m c] .
  from Cons.prems(2) have fs: "size_s r = sizeof_tensor" "buffer r = T"
    "size_s w = sizeof_tensor" "length (buffer w) = sizeof_tensor" "wrapped w = 0"
    by (simp_all add: fit_state_def)
  from compress_trial_fit [OF fs(1,2) assms(1) fs(3,4) c fit]
  obtain r' w' where t: "compress_trial codec m r w = (rc, r', w')"
    and f': "fit_state T r' w'" and i: "index w' = length out"
    using fs(5) by (auto simp: fit_state_def)
  have ms: "set ms \<subseteq> {9 ..< 17}" using Cons.prems(1) by simp
  show ?case
    using Cons.IH [OF ms f'] t rc i c by (simp add: pick_def)
qed

lemma pick_fold_first_min:
  assumes "\<forall>m \<in> {9 ..< k}. len m \<le> N" "9 < k"
  shows "\<exists>b \<in> {9 ..< k}. foldl (pick len) (None, Suc N) [9 ..< k] = (Some b, len b) \<and>
           (\<forall>m \<in> {9 ..< k}. len b \<le> len m) \<and> (\<forall>m \<in> {9 ..< b}. len b < len m)"
  using assms
proof (induction k)
  case 0
  then show ?case by simp
next
  case (Suc k)
  show ?case
  proof (cases "k = 9")
    case True
    then have l: "[9 ..< Suc k] = [9]" and s9: "{9 ..< Suc k} = {9}" by auto
    have "len 9 \<le> N" using Suc.prems(1) s9 by simp
    then have "foldl (pick len) (None, Suc N) [9] = (Some 9, len 9)"
      by (simp add: pick_def)
    then show ?thesis unfolding l s9 by simp
  next
    case False
    then have k: "9 < k" using Suc.prems(2) by simp
    have "\<forall>m \<in> {9 ..< k}. len m \<le> N" using Suc.prems(1) by simp
    from Suc.IH [OF this k] obtain b where b: "b \<in> {9 ..< k}"
      "foldl (pick len) (None, Suc N) [9 ..< k] = (Some b, len b)"
      "\<forall>m \<in> {9 ..< k}. len b \<le> len m" "\<forall>m \<in> {9 ..< b}. len b < len m" by blast
    have u: "[9 ..< Suc k] = [9 ..< k] @ [k]" using k by simp
    have s: "{9 ..< Suc k} = insert k {9 ..< k}" using k by auto
    show ?thesis
    proof (cases "len k < len b")
      case True
      have "foldl (pick len) (None, Suc N) ([9 ..< k] @ [k]) = (Some k, len k)"
        using True b(2) by (simp add: pick_def)
      then have "foldl (pick len) (None, Suc N) [9 ..< Suc k] = (Some k, len k)"
        unfolding u .
      moreover have "\<forall>m \<in> {9 ..< Suc k}. len k \<le> len m" using True b(3) s by auto
      moreover have "\<forall>m \<in> {9 ..< k}. len k < len m" using True b(3) by force
      ultimately show ?thesis using k by (intro bexI [of _ k]) auto
    next
      case False
      have "foldl (pick len) (None, Suc N) ([9 ..< k] @ [k]) = (Some b, len b)"
        using False b(2) by (simp add: pick_def)
      then have "foldl (pick len) (None, Suc N) [9 ..< Suc k] = (Some b, len b)"
        unfolding u .
      moreover have "\<forall>m \<in> {9 ..< Suc k}. len b \<le> len m" using False b(3) s by auto
      ultimately show ?thesis using b(1,4) by (intro bexI [of _ b]) auto
    qed
  qed
qed

lemma first_smallest_when_all_fit:
  assumes "length T = sizeof_tensor" "length scratch = sizeof_tensor"
    and "lzw_inverts codec T" "trials_fit codec T"
  shows "\<exists>b \<in> {9 ..< 17}.
           select_maxbits codec scratch T = Inr (Some b, length (snd (snd (lzw_compress codec b T)))) \<and>
           (\<forall>m \<in> {9 ..< 17}. length (snd (snd (lzw_compress codec b T)))
                                  \<le> length (snd (snd (lzw_compress codec m T)))) \<and>
           (\<forall>m \<in> {9 ..< b}. length (snd (snd (lzw_compress codec b T)))
                                  < length (snd (snd (lzw_compress codec m T))))"
proof -
  let ?len = "\<lambda>m. length (snd (snd (lzw_compress codec m T)))"
  have f0: "fit_state T (tensor_reader T) (scratch_writer scratch)"
    using assms by (simp add: fit_state_def tensor_reader_def scratch_writer_def)
  have "set [9 ..< 17] \<subseteq> {9 ..< 17::nat}" by simp
  from trials_fit_fold [OF assms(1,3,4) this f0, of None "sizeof_tensor + 1"]
  obtain r' w' where t: "trials codec [9 ..< 17] (tensor_reader T, scratch_writer scratch, None, sizeof_tensor + 1)
      = Inr (r', w', foldl (pick ?len) (None, Suc sizeof_tensor) [9 ..< 17])"
    by auto
  have "\<forall>m \<in> {9 ..< 17}. ?len m \<le> sizeof_tensor"
    using assms(4) by (simp add: trials_fit_def)
  from pick_fold_first_min [OF this] obtain b where b: "b \<in> {9 ..< 17}"
    "foldl (pick ?len) (None, Suc sizeof_tensor) [9 ..< 17] = (Some b, ?len b)"
    "\<forall>m \<in> {9 ..< 17}. ?len b \<le> ?len m" "\<forall>m \<in> {9 ..< b}. ?len b < ?len m"
    by auto
  have "select_maxbits codec scratch T = Inr (Some b, ?len b)"
    unfolding select_maxbits_def t b(2) by simp
  with b show ?thesis by blast
qed

text \<open>
  Claim C6 against the code. \<^verbatim>\<open>write_tensor_file\<close> never reads \<^verbatim>\<open>writer.wrapped\<close>.
  With a codec that overruns the scratch buffer by one byte at \<^verbatim>\<open>maxbits\<close> 9 and needs
  six bytes from 10 on, the trial at 9 wraps and leaves \<^verbatim>\<open>writer.index\<close> = 1; it is not
  skipped but taken as the smallest output, ahead of the trials that did not wrap, and the
  file gets the one byte that lies at the start of the scratch buffer.
\<close>

theorem wrapped_trial_is_selected:
  "select_maxbits mixed_codec zero_bytes music_tensor = Inr (Some 9, 1) \<and>
   wrapped (snd (snd (compress_trial mixed_codec 9 (tensor_reader music_tensor) (scratch_writer zero_bytes)))) = 1 \<and>
   wrapped (snd (snd (compress_trial mixed_codec 10 (tensor_reader music_tensor) (scratch_writer zero_bytes)))) = 0 \<and>
   index (snd (snd (compress_trial mixed_codec 10 (tensor_reader music_tensor) (scratch_writer zero_bytes)))) = 6 \<and>
   write_tensor_file mixed_codec zero_bytes music_tensor = Inr stored_file"
proof -
  have c9: "lzw_compress mixed_codec 9 music_tensor = stored_compress music_tensor"
    by (simp add: mixed_codec_def)
  have c: "mb \<noteq> 9 \<Longrightarrow> lzw_compress mixed_codec mb music_tensor = run_compress music_tensor" for mb
    by (simp add: mixed_codec_def)
  note st = stored_trial [OF _ _ last_music(2) _ _ c9]
  note rt = run_trial [OF _ _ _ _ c]
  have final: "compress_trial mixed_codec 9 ((tensor_reader music_tensor)\<lparr>index := sizeof_tensor\<rparr>)
        ((scratch_writer zero_bytes)\<lparr>buffer := (1 # le32 (of_nat sizeof_tensor) @ [99]) @ drop 6 ((0 # butlast music_tensor)[0 := 99]),
                                     index := 6, wrapped := 1\<rparr>)
      = (0, (tensor_reader music_tensor)\<lparr>index := sizeof_tensor\<rparr>,
         (scratch_writer zero_bytes)\<lparr>buffer := (0 # butlast music_tensor)[0 := 99], index := 1, wrapped := 2\<rparr>)"
    by (simp add: st tensor_reader_def scratch_writer_def zero_bytes_def last_music sizeof_tensor_eq)
  have w: "write_tensor_file mixed_codec zero_bytes music_tensor = Inr stored_file"
    unfolding write_tensor_file_def Let_def mixed_codec_trials sum.case prod.case option.case final
    by (simp add: stored_file_def)
  have s: "select_maxbits mixed_codec zero_bytes music_tensor = Inr (Some 9, 1)"
    unfolding select_maxbits_def mixed_codec_trials by simp
  show ?thesis
    using w s
    by (simp add: st rt tensor_reader_def scratch_writer_def zero_bytes_def last_music sizeof_tensor_eq)
qed

text \<open>The codec of that run inverts correctly, and the file it leads to does not load.\<close>

lemma wrapped_file_does_not_load:
  "lzw_inverts mixed_codec music_tensor \<and>
   local_tensor_file mixed_codec zero_bytes stored_file = (0, zero_bytes)"
  using mixed_codec_inverts load_stored_file [of mixed_codec] by (simp add: mixed_codec_def)

end
